theory Spec2Isabelle
  imports Main "HOL-Library.Sublist" "HOL-Library.Char_ord" "HOL-Library.List_Lexorder"
begin

section \<open>Python strings and paths used by \<^verbatim>\<open>transcribe.py\<close>\<close>

text \<open>
  A Python \<^verbatim>\<open>str\<close> is modelled as a \<^typ>\<open>string\<close>; a character is read as the code
  point 0..255 it stands for. On that range the functions below are the ones of the
  Python standard library (\<^verbatim>\<open>str.lower\<close>, \<^verbatim>\<open>str.strip\<close>, \<^verbatim>\<open>str.split\<close>,
  \<^verbatim>\<open>str.endswith\<close>) and of \<^verbatim>\<open>posixpath\<close> (\<^verbatim>\<open>join\<close>, \<^verbatim>\<open>basename\<close>, \<^verbatim>\<open>dirname\<close>,
  \<^verbatim>\<open>splitext\<close>). Strings are ordered as Python orders them: lexicographically by code
  point.
\<close>

definition chr_lower :: "char \<Rightarrow> char" where
  "chr_lower c =
     (let n = (of_char c :: nat) in
      if (65 \<le> n \<and> n \<le> 90) \<or> (192 \<le> n \<and> n \<le> 222 \<and> n \<noteq> 215)
      then char_of (n + 32) else c)"

definition str_lower :: "string \<Rightarrow> string" where
  "str_lower s = map chr_lower s"

definition isspace :: "char \<Rightarrow> bool" where
  "isspace c =
     (let n = (of_char c :: nat) in
      (9 \<le> n \<and> n \<le> 13) \<or> (28 \<le> n \<and> n \<le> 32) \<or> n = 133 \<or> n = 160)"

definition str_strip :: "string \<Rightarrow> string" where
  "str_strip s = rev (dropWhile isspace (rev (dropWhile isspace s)))"

function str_split :: "string \<Rightarrow> char \<Rightarrow> string list" where
  "str_split s sep =
     (case dropWhile (\<lambda>c. c \<noteq> sep) s of
        [] \<Rightarrow> [s]
      | _ # rest \<Rightarrow> takeWhile (\<lambda>c. c \<noteq> sep) s # str_split rest sep)"
  by pat_completeness auto
termination
proof (relation "measure (\<lambda>(s, sep). length s)")
  show "wf (measure (\<lambda>(s, sep). length s))"
    by simp
next
  fix s :: string and sep x rest
  assume "dropWhile (\<lambda>c. c \<noteq> sep) s = x # rest"
  then have "length (x # rest) \<le> length s"
    using length_dropWhile_le [of "\<lambda>c. c \<noteq> sep" s] by simp
  then show "((rest, sep), (s, sep)) \<in> measure (\<lambda>(s, sep). length s)"
    by simp
qed

definition str_endswith :: "string \<Rightarrow> string \<Rightarrow> bool" where
  "str_endswith s e = (length e \<le> length s \<and> drop (length s - length e) s = e)"

text \<open>\<^verbatim>\<open>s.endswith(tuple(exts))\<close>: some member of the tuple is a suffix of \<open>s\<close>.\<close>

definition endswith_any :: "string \<Rightarrow> string list \<Rightarrow> bool" where
  "endswith_any s exts = list_ex (str_endswith s) exts"

definition os_path_join :: "string \<Rightarrow> string \<Rightarrow> string" where
  "os_path_join a b =
     (if b \<noteq> [] \<and> hd b = CHR ''/'' then b
      else if a = [] \<or> last a = CHR ''/'' then a @ b
      else a @ ''/'' @ b)"

definition os_path_basename :: "string \<Rightarrow> string" where
  "os_path_basename p = rev (takeWhile (\<lambda>c. c \<noteq> CHR ''/'') (rev p))"

text \<open>
  \<^verbatim>\<open>posixpath.dirname\<close>: everything up to the last slash; trailing slashes of that head
  are removed unless the head is slashes only.
\<close>

definition os_path_dirname :: "string \<Rightarrow> string" where
  "os_path_dirname p =
     (let hd_part = rev (dropWhile (\<lambda>c. c \<noteq> CHR ''/'') (rev p)) in
      if hd_part \<noteq> [] \<and> (\<exists>c \<in> set hd_part. c \<noteq> CHR ''/'')
      then rev (dropWhile (\<lambda>c. c = CHR ''/'') (rev hd_part))
      else hd_part)"

text \<open>
  \<^verbatim>\<open>posixpath.splitext\<close>: the extension starts at the last dot of the last path
  component, provided a character other than a dot stands before it in that component.
\<close>

definition os_path_splitext :: "string \<Rightarrow> string \<times> string" where
  "os_path_splitext p =
     (let tl_part = os_path_basename p;
          hd_part = take (length p - length tl_part) p;
          ext_rev = takeWhile (\<lambda>c. c \<noteq> CHR ''.'') (rev tl_part);
          stem = take (length tl_part - length ext_rev - 1) tl_part
      in if CHR ''.'' \<in> set tl_part \<and> (\<exists>c \<in> set stem. c \<noteq> CHR ''.'')
         then (hd_part @ stem, CHR ''.'' # rev ext_rev)
         else (p, []))"

section \<open>File Locator: \<^verbatim>\<open>find_audio_files\<close>\<close>

text \<open>
  What the file system holds at a path: a regular file, or a directory with its entries
  in the order \<^verbatim>\<open>os.scandir\<close> lists them. \<open>None\<close> stands for a path that does not
  exist. (Symbolic links are not modelled.)
\<close>

datatype node = File | Dir "(string \<times> node) list"

text \<open>
  \<^verbatim>\<open>os.walk(top)\<close>, top-down: the triple of the directory itself, then the walk of
  each sub-directory under the joined path.
\<close>

fun os_walk :: "string \<Rightarrow> (string \<times> node) list \<Rightarrow> (string \<times> string list \<times> string list) list" where
  "os_walk dirpath es =
     (dirpath, [n. (n, Dir _) \<leftarrow> es], [n. (n, File) \<leftarrow> es])
       # concat (map (\<lambda>(n, x). case x of Dir sub \<Rightarrow> os_walk (os_path_join dirpath n) sub
                                        | File \<Rightarrow> []) es)"

definition find_audio_files :: "string \<Rightarrow> node option \<Rightarrow> string list \<Rightarrow> string list" where
  "find_audio_files root at_root exts =
     (case at_root of
        Some File \<Rightarrow> if endswith_any (str_lower root) exts then [root] else []
      | Some (Dir es) \<Rightarrow>
          sort (concat (map (\<lambda>(dirpath, _, filenames).
                  [os_path_join dirpath name. name \<leftarrow> filenames,
                     endswith_any (str_lower name) exts])
                (os_walk root es)))
      | None \<Rightarrow> sort [])"

text \<open>
  The files \<open>find_audio_files\<close> collects from a directory before it sorts them, with
  the test on the name as a parameter.
\<close>

definition found_in :: "(string \<Rightarrow> bool) \<Rightarrow> string \<Rightarrow> (string \<times> node) list \<Rightarrow> string list" where
  "found_in P d es = concat (map (\<lambda>(dirpath, _, filenames).
          [os_path_join dirpath name. name \<leftarrow> filenames, P name]) (os_walk d es))"

text \<open>
  A directory as a file system holds it: the names of its entries are names (not empty,
  no slash) and differ from each other, in every directory below it too.
\<close>

definition is_name :: "string \<Rightarrow> bool" where
  "is_name n = (n \<noteq> [] \<and> CHR ''/'' \<notin> set n)"

fun proper_entries :: "(string \<times> node) list \<Rightarrow> bool" where
  "proper_entries es =
     (distinct (map fst es) \<and>
      (\<forall>(n, x) \<in> set es. is_name n \<and> (case x of Dir sub \<Rightarrow> proper_entries sub | File \<Rightarrow> True)))"

text \<open>
  The files under a directory, stated without the walk: \<open>file_under d es p n\<close> holds when
  the file named \<open>n\<close> lies, at any depth, in the directory \<open>d\<close> with entries \<open>es\<close>, and
  \<open>p\<close> is its path.
\<close>

inductive file_under :: "string \<Rightarrow> (string \<times> node) list \<Rightarrow> string \<Rightarrow> string \<Rightarrow> bool" where
  here: "(n, File) \<in> set es \<Longrightarrow> file_under d es (os_path_join d n) n"
| deeper: "(m, Dir sub) \<in> set es \<Longrightarrow> file_under (os_path_join d m) sub p n
            \<Longrightarrow> file_under d es p n"

section \<open>The file system the outputs go to\<close>

text \<open>
  An operating-system error carries the path of the call that raised it; \<open>Exception\<close>
  is any other exception (of the recognition capability or of the caption writer), with
  its message. \<open>str_exn\<close> is what \<^verbatim>\<open>str(exc)\<close> prints, for a path that Python's
  \<^verbatim>\<open>repr\<close> puts between single quotes as it is (no apostrophe, backslash or control
  character in it).
\<close>

datatype exn =
    FileExistsError string
  | FileNotFoundError string
  | IsADirectoryError string
  | NotADirectoryError string
  | Exception string

definition py_repr :: "string \<Rightarrow> string" where
  "py_repr p = [CHR 0x27] @ p @ [CHR 0x27]"

fun str_exn :: "exn \<Rightarrow> string" where
  "str_exn (FileExistsError p) = ''[Errno 17] File exists: '' @ py_repr p"
| "str_exn (FileNotFoundError p) = ''[Errno 2] No such file or directory: '' @ py_repr p"
| "str_exn (IsADirectoryError p) = ''[Errno 21] Is a directory: '' @ py_repr p"
| "str_exn (NotADirectoryError p) = ''[Errno 20] Not a directory: '' @ py_repr p"
| "str_exn (Exception msg) = msg"

text \<open>
  The file system is a map from paths to what they hold: a directory, or a file with
  its content. Paths are compared as they are written (\<^verbatim>\<open>a/b\<close> and \<^verbatim>\<open>a//b\<close> are two
  keys); every path the program writes is built from \<^verbatim>\<open>args.out_dir\<close> by
  \<^verbatim>\<open>os.path.join\<close>, so it spells a directory one way only.
\<close>

datatype entry = IsDir | IsFile string

type_synonym filesystem = "string \<Rightarrow> entry option"

text \<open>The directories above a path, outermost first.\<close>

function ancestors :: "string \<Rightarrow> string list" where
  "ancestors p =
     (let d = os_path_dirname p in
      if d = [] \<or> length p \<le> length d then [] else ancestors d @ [d])"
  by pat_completeness auto
termination
  by (relation "measure length") auto

definition is_file :: "filesystem \<Rightarrow> string \<Rightarrow> bool" where
  "is_file fs p = (case fs p of Some (IsFile _) \<Rightarrow> True | _ \<Rightarrow> False)"

text \<open>
  \<^verbatim>\<open>os.makedirs(name, exist_ok=exist_ok)\<close>: creates the directory and every missing
  directory above it. It fails when a path on the way is a regular file, and, unless
  \<open>exist_ok\<close>, when the directory already exists. The model fails exactly when the
  call does; which exception a failing call raises, and on which path, is kept only
  roughly (the exception always carries \<open>name\<close>).
\<close>

definition os_makedirs :: "string \<Rightarrow> bool \<Rightarrow> filesystem \<Rightarrow> exn + filesystem" where
  "os_makedirs name exist_ok fs =
     (case fs name of
        Some IsDir \<Rightarrow> if exist_ok then Inr fs else Inl (FileExistsError name)
      | Some (IsFile _) \<Rightarrow> Inl (FileExistsError name)
      | None \<Rightarrow>
         if name = [] then Inl (FileNotFoundError name)
         else (case find (is_file fs) (ancestors name) of
                 Some _ \<Rightarrow> Inl (NotADirectoryError name)
               | None \<Rightarrow>
                   Inr (\<lambda>p. if p \<in> set (name # ancestors name) then Some IsDir else fs p)))"

text \<open>
  \<^verbatim>\<open>open(path, 'w')\<close>, \<^verbatim>\<open>f.write(content)\<close> and the close: the directory of the path
  must exist (an empty directory part is the current directory) and the path must not
  be a directory; the file then holds exactly \<open>content\<close>.
\<close>

definition open_write :: "string \<Rightarrow> string \<Rightarrow> filesystem \<Rightarrow> exn + filesystem" where
  "open_write path content fs =
     (let d = os_path_dirname path in
      if path = [] then Inl (FileNotFoundError path)
      else if fs path = Some IsDir \<or> last path = CHR ''/'' then Inl (IsADirectoryError path)
      else if d \<noteq> [] \<and> is_file fs d then Inl (NotADirectoryError path)
      else if d \<noteq> [] \<and> fs d = None then Inl (FileNotFoundError path)
      else Inr (fs(path \<mapsto> IsFile content)))"

section \<open>The program state and its effects\<close>

text \<open>
  What the program does to the outside, in the order it does it: lines printed, the
  scan of the input path, and every call that creates a directory, runs the recognition
  capability or writes a file. A call is recorded when it is made, whether or not it
  succeeds.
\<close>

datatype event =
    Stdout string
  | Stderr string
  | Scan string
  | MakeDirs string
  | Transcribe string
  | SaveText string string
  | WriteTimecoded string string string

record state =
  fsys :: filesystem
  trace :: "event list"

definition emit :: "event \<Rightarrow> state \<Rightarrow> state" where
  "emit e s = s\<lparr>trace := trace s @ [e]\<rparr>"

definition print :: "string \<Rightarrow> state \<Rightarrow> state" where
  "print line s = emit (Stdout line) s"

definition eprint :: "string \<Rightarrow> state \<Rightarrow> state" where
  "eprint line s = emit (Stderr line) s"

text \<open>
  A statement that may raise returns the exception, or \<open>None\<close> when it completes, and the
  state it leaves. \<open>and_then\<close> is Python's sequencing: the rest runs only when nothing was
  raised.
\<close>

definition and_then :: "exn option \<times> state \<Rightarrow> (state \<Rightarrow> exn option \<times> state) \<Rightarrow> exn option \<times> state" where
  "and_then r k = (case r of (Some e, s) \<Rightarrow> (Some e, s) | (None, s) \<Rightarrow> k s)"

definition ensure_dir :: "string \<Rightarrow> state \<Rightarrow> exn option \<times> state" where
  "ensure_dir path s =
     (let s1 = emit (MakeDirs path) s in
      case os_makedirs path True (fsys s1) of
        Inl e \<Rightarrow> (Some e, s1)
      | Inr fs \<Rightarrow> (None, s1\<lparr>fsys := fs\<rparr>))"

definition save_text :: "string \<Rightarrow> string \<Rightarrow> state \<Rightarrow> exn option \<times> state" where
  "save_text path content s =
     (let s1 = emit (SaveText path content) s in
      case open_write path content (fsys s1) of
        Inl e \<Rightarrow> (Some e, s1)
      | Inr fs \<Rightarrow> (None, s1\<lparr>fsys := fs\<rparr>))"

section \<open>The recognition capability and the caption writer\<close>

text \<open>
  The result of a transcription is a dictionary; \<open>text_of\<close> is the value at its key
  \<^verbatim>\<open>text\<close> (\<open>None\<close> when the key is absent), the one key the program reads, and
  \<open>rest\<close> is everything else, handed on unread.
\<close>

record result =
  text_of :: "string option"
  rest :: string

text \<open>
  What the program does not own is a parameter:
  \<^item> \<open>at_input\<close>: what the file system holds at \<^verbatim>\<open>args.input\<close> when the scan runs;
  \<^item> \<open>cuda_is_available\<close>: \<^verbatim>\<open>torch.cuda.is_available()\<close>;
  \<^item> \<open>whisper\<close>: \<^verbatim>\<open>whisper.load_model(model_name, device=device)\<close> followed by
    \<^verbatim>\<open>model.transcribe(file_path, verbose=False, fp16=fp16, language=language)\<close>, with
    the arguments in the order model name, device, file path, fp16, language;
  \<^item> \<open>json_dumps\<close>: \<^verbatim>\<open>json.dumps(result, ensure_ascii=False, indent=2)\<close>;
  \<^item> \<open>get_writer\<close>: the text that whisper's writer of a kind (\<^verbatim>\<open>srt\<close>, \<^verbatim>\<open>vtt\<close>) renders
    from a result, or the exception it raises.
\<close>

record env =
  at_input :: "node option"
  cuda_is_available :: bool
  whisper :: "string \<Rightarrow> string \<Rightarrow> string \<Rightarrow> bool \<Rightarrow> string option \<Rightarrow> exn + result"
  json_dumps :: "result \<Rightarrow> string"
  get_writer :: "string \<Rightarrow> result \<Rightarrow> exn + string"

definition transcribe_whisper :: "env \<Rightarrow> string \<Rightarrow> string \<Rightarrow> string \<Rightarrow> string option \<Rightarrow> exn + result" where
  "transcribe_whisper w file_path model_name device language =
     (let device = (if device = ''auto''
                    then (if cuda_is_available w then ''cuda'' else ''cpu'')
                    else device);
          fp16 = (device = ''cuda'')
      in whisper w model_name device file_path fp16 language)"

text \<open>
  Line 82: the name of an input file without its directory and its extension.
\<close>

definition base_of :: "string \<Rightarrow> string" where
  "base_of file_path = fst (os_path_splitext (os_path_basename file_path))"

text \<open>
  whisper's writer names its file after the audio file: the base name without its
  extension, a dot, and the kind, inside \<open>out_folder\<close>. The model renders first and
  writes the file when the rendering succeeded; the writer itself opens the file first,
  so a rendering that fails leaves it empty or partial, which the model does not show.
\<close>

definition write_timecoded :: "env \<Rightarrow> result \<Rightarrow> string \<Rightarrow> string \<Rightarrow> string \<Rightarrow> state \<Rightarrow> exn option \<times> state" where
  "write_timecoded w result file_path out_folder kind s =
     (let s1 = emit (WriteTimecoded file_path out_folder kind) s in
      case get_writer w kind result of
        Inl e \<Rightarrow> (Some e, s1)
      | Inr content \<Rightarrow>
         (case open_write
                 (os_path_join out_folder (base_of file_path @ ''.'' @ kind))
                 content (fsys s1) of
            Inl e \<Rightarrow> (Some e, s1)
          | Inr fs \<Rightarrow> (None, s1\<lparr>fsys := fs\<rparr>)))"

section \<open>Batch Driver: \<^verbatim>\<open>main\<close>\<close>

record args =
  input :: string
  out_dir :: string
  model :: string
  device :: string
  language :: "string option"
  formats :: string
  fail_on_error :: bool

text \<open>
  How the process ends: \<^verbatim>\<open>sys.exit\<close> with a status (the value \<^verbatim>\<open>main\<close> returns, or 2
  from the format check), or an exception that nothing catches.
\<close>

datatype outcome = Exit int | Uncaught exn

text \<open>Line 83: the directory the outputs of an input file go to.\<close>

definition out_folder_of :: "args \<Rightarrow> string \<Rightarrow> string" where
  "out_folder_of a file_path = os_path_join (out_dir a) (base_of file_path)"

definition supported :: "string list" where
  "supported = [''txt'', ''json'', ''srt'', ''vtt'']"

definition audio_exts :: "string list" where
  "audio_exts = [''.mp3'', ''.wav'', ''.m4a'', ''.mp4'', ''.mpeg'', ''.mpga'', ''.webm'', ''.ogg'', ''.flac'']"

text \<open>Line 65: the entries between commas, stripped and lower-cased, the empty ones dropped.\<close>

definition parse_formats :: "string \<Rightarrow> string list" where
  "parse_formats s =
     [str_lower (str_strip fmt). fmt \<leftarrow> str_split s CHR '','', str_strip fmt \<noteq> []]"

definition unsupported_message :: "string \<Rightarrow> string" where
  "unsupported_message fmt =
     ''Unsupported format: '' @ fmt @ ''. Supported: ['' @
       py_repr ''json'' @ '', '' @ py_repr ''srt'' @ '', '' @ py_repr ''txt'' @ '', '' @
       py_repr ''vtt'' @ '']''"

text \<open>
  Lines 106 to 109 and 112 to 115: a caption file is written inside \<^verbatim>\<open>try\<close>; an
  exception is reported on the error stream and goes no further. \<open>label\<close> is the kind as
  the message spells it (\<^verbatim>\<open>SRT\<close>, \<^verbatim>\<open>VTT\<close>).
\<close>

definition try_write_timecoded :: "env \<Rightarrow> result \<Rightarrow> string \<Rightarrow> string \<Rightarrow> string \<Rightarrow> string \<Rightarrow> state \<Rightarrow> state" where
  "try_write_timecoded w r file_path out_folder kind label s =
     (case write_timecoded w r file_path out_folder kind s of
        (Some exc, s) \<Rightarrow>
          eprint (''Failed '' @ label @ '' writing for '' @ file_path @ '': '' @ str_exn exc) s
      | (None, s) \<Rightarrow> s)"

text \<open>Lines 97 to 115: the outputs of one transcribed file.\<close>

definition write_outputs :: "env \<Rightarrow> string list \<Rightarrow> result \<Rightarrow> string \<Rightarrow> string \<Rightarrow> string \<Rightarrow> state \<Rightarrow> exn option \<times> state" where
  "write_outputs w fmts r file_path out_folder base s =
     and_then
       (if ''txt'' \<in> set fmts
        then save_text (os_path_join out_folder (base @ ''.txt''))
               (str_strip (case text_of r of Some t \<Rightarrow> t | None \<Rightarrow> [])) s
        else (None, s))
       (\<lambda>s. and_then
          (if ''json'' \<in> set fmts
           then save_text (os_path_join out_folder (base @ ''.json'')) (json_dumps w r) s
           else (None, s))
          (\<lambda>s.
             let s = (if ''srt'' \<in> set fmts
                      then try_write_timecoded w r file_path out_folder ''srt'' ''SRT'' s
                      else s);
                 s = (if ''vtt'' \<in> set fmts
                      then try_write_timecoded w r file_path out_folder ''vtt'' ''VTT'' s
                      else s)
             in (None, s)))"

text \<open>
  Lines 80 to 121: the loop over the files, with the list of failures, and the status
  returned after it.
\<close>

fun process_files :: "env \<Rightarrow> args \<Rightarrow> string list \<Rightarrow> string list \<Rightarrow> string list \<Rightarrow> state \<Rightarrow> outcome \<times> state" where
  "process_files w a fmts [] failures s =
     (if failures \<noteq> [] \<and> fail_on_error a then (Exit 1, s) else (Exit 0, s))"
| "process_files w a fmts (file_path # files) failures s =
     (let base = base_of file_path;
          out_folder = out_folder_of a file_path
      in case ensure_dir out_folder s of
           (Some e, s) \<Rightarrow> (Uncaught e, s)
         | (None, s) \<Rightarrow>
            (let s = print (''Transcribing: '' @ file_path) s;
                 s = emit (Transcribe file_path) s
             in case transcribe_whisper w file_path (model a) (device a) (language a) of
                  Inl exc \<Rightarrow>
                    (let s = eprint (''Failed transcription for '' @ file_path @ '': '' @ str_exn exc) s;
                         failures = failures @ [file_path]
                     in if fail_on_error a then (Exit 1, s)
                        else process_files w a fmts files failures s)
                | Inr r \<Rightarrow>
                    (case write_outputs w fmts r file_path out_folder base s of
                       (Some e, s) \<Rightarrow> (Uncaught e, s)
                     | (None, s) \<Rightarrow>
                         process_files w a fmts files failures
                           (print (''Saved transcripts to: '' @ out_folder) s))))"

definition main :: "env \<Rightarrow> args \<Rightarrow> state \<Rightarrow> outcome \<times> state" where
  "main w a s =
     (let fmts = parse_formats (formats a) in
      case find (\<lambda>fmt. fmt \<notin> set supported) fmts of
        Some fmt \<Rightarrow> (Exit 2, eprint (unsupported_message fmt) s)
      | None \<Rightarrow>
         (let s = emit (Scan (input a)) s;
              files = find_audio_files (input a) (at_input w) audio_exts
          in if files = [] then (Exit 0, eprint ''No audio files found to transcribe.'' s)
             else case ensure_dir (out_dir a) s of
                    (Some e, s) \<Rightarrow> (Uncaught e, s)
                  | (None, s) \<Rightarrow> process_files w a fmts files [] s))"

text \<open>The status the operating system sees: an uncaught exception ends Python with 1.\<close>

fun exit_status :: "outcome \<Rightarrow> int" where
  "exit_status (Exit n) = n"
| "exit_status (Uncaught e) = 1"

section \<open>Reading the trace and the file system\<close>

text \<open>The files the recognition capability was called on, in the order of the calls.\<close>

fun attempted :: "event list \<Rightarrow> string list" where
  "attempted [] = []"
| "attempted (Transcribe f # evs) = f # attempted evs"
| "attempted (_ # evs) = attempted evs"

text \<open>The calls that can change the file system.\<close>

fun fs_call :: "event \<Rightarrow> bool" where
  "fs_call (MakeDirs _) = True"
| "fs_call (SaveText _ _) = True"
| "fs_call (WriteTimecoded _ _ _) = True"
| "fs_call _ = False"

text \<open>
  The events of printing and of writing output files: everything but the scan, the
  creation of a directory and the call of the recognition capability.
\<close>

fun output_event :: "event \<Rightarrow> bool" where
  "output_event (Scan _) = False"
| "output_event (MakeDirs _) = False"
| "output_event (Transcribe _) = False"
| "output_event _ = True"

text \<open>\<open>s'\<close> is \<open>s\<close> after more printing and writing of output files.\<close>

definition outputs_only :: "state \<Rightarrow> state \<Rightarrow> bool" where
  "outputs_only s s' = (\<exists>evs. trace s' = trace s @ evs \<and> list_all output_event evs)"

text \<open>The lines written to the error stream.\<close>

fun stderr_lines :: "event list \<Rightarrow> string list" where
  "stderr_lines [] = []"
| "stderr_lines (Stderr l # evs) = l # stderr_lines evs"
| "stderr_lines (_ # evs) = stderr_lines evs"

text \<open>
  \<open>dirs_first folder made evs\<close>: in \<open>evs\<close>, every call of the recognition capability on
  a file \<open>f\<close> comes after a call creating \<open>folder f\<close> (or \<open>folder f\<close> is in \<open>made\<close>, the
  directories asked for before \<open>evs\<close>).
\<close>

fun dirs_first :: "(string \<Rightarrow> string) \<Rightarrow> string set \<Rightarrow> event list \<Rightarrow> bool" where
  "dirs_first folder made [] = True"
| "dirs_first folder made (MakeDirs d # evs) = dirs_first folder (insert d made) evs"
| "dirs_first folder made (Transcribe f # evs) =
     (folder f \<in> made \<and> dirs_first folder made evs)"
| "dirs_first folder made (_ # evs) = dirs_first folder made evs"

text \<open>Every directory of \<open>fs\<close> is a directory of \<open>fs'\<close>.\<close>

definition dirs_kept :: "filesystem \<Rightarrow> filesystem \<Rightarrow> bool" where
  "dirs_kept fs fs' = (\<forall>p. fs p = Some IsDir \<longrightarrow> fs' p = Some IsDir)"



section \<open>Concrete runs\<close>

text \<open>A directory with an audio file, a sub-directory and a file of another kind.\<close>

definition tree1 :: "(string \<times> node) list" where
  "tree1 = [(''z.mp3'', File), (''d'', Dir [(''b.MP3'', File), (''notes.txt'', File)]), (''c'', File)]"

text \<open>
  An input directory \<^verbatim>\<open>in\<close> with three audio files and a text file. The recognition
  capability fails on \<^verbatim>\<open>in/b.wav\<close>; the caption writer fails on \<^verbatim>\<open>srt\<close>.
\<close>

definition demo_env :: env where
  "demo_env =
     \<lparr>at_input = Some (Dir [(''a.mp3'', File), (''b.wav'', File), (''c.MP3'', File),
                              (''n.txt'', File)]),
      cuda_is_available = False,
      whisper = (\<lambda>m d f fp16 l.
         if f = ''in/b.wav'' then Inl (Exception ''corrupt'')
         else Inr \<lparr>text_of = Some (''  hello '' @ f @ ''  ''), rest = []\<rparr>),
      json_dumps = (\<lambda>r. ''{}''),
      get_writer = (\<lambda>k r. if k = ''srt'' then Inl (Exception ''boom'') else Inr ''WEBVTT'')\<rparr>"

text \<open>The same, with a recognition capability that fails on no file.\<close>

definition ok_env :: env where
  "ok_env =
     demo_env\<lparr>whisper := (\<lambda>m d f fp16 l.
        Inr \<lparr>text_of = Some (''  hello '' @ f @ ''  ''), rest = []\<rparr>)\<rparr>"

text \<open>The same, with no audio file under the input path.\<close>

definition no_audio_env :: env where
  "no_audio_env = demo_env\<lparr>at_input := Some (Dir [(''n.txt'', File)])\<rparr>"

definition demo_args :: args where
  "demo_args =
     \<lparr>input = ''in'', out_dir = ''out'', model = ''medium'', device = ''auto'',
      language = None, formats = ''txt,json,srt,vtt'', fail_on_error = False\<rparr>"

text \<open>Nothing done yet, on a file system that holds nothing under the paths written.\<close>

definition fresh :: state where
  "fresh = \<lparr>fsys = (\<lambda>p. None), trace = []\<rparr>"

text \<open>
  The output tree of an earlier run in which \<^verbatim>\<open>out/a/a.txt\<close> was left as a directory.
\<close>

definition blocked :: state where
  "blocked =
     \<lparr>fsys = (\<lambda>p. if p \<in> {''out'', ''out/a'', ''out/a/a.txt''} then Some IsDir else None),
      trace = []\<rparr>"

section \<open>Lemmas\<close>

text \<open>The recursive equations are unfolded by hand, one step at a time.\<close>

declare os_walk.simps [simp del] str_split.simps [simp del] ancestors.simps [simp del]
  proper_entries.simps [simp del]

subsection \<open>Suffixes and the walk\<close>

lemma str_endswith_suffix: "str_endswith s e = suffix e s"
proof
  assume "str_endswith s e"
  then have "length e \<le> length s" and e: "drop (length s - length e) s = e"
    by (simp_all add: str_endswith_def)
  have "s = take (length s - length e) s @ drop (length s - length e) s"
    by simp
  with e have "s = take (length s - length e) s @ e" by simp
  then show "suffix e s" by (rule suffixI)
next
  assume "suffix e s"
  then obtain zs where "s = zs @ e" by (auto simp: suffix_def)
  then show "str_endswith s e" by (simp add: str_endswith_def)
qed

lemma endswith_any_iff: "endswith_any s exts = (\<exists>e \<in> set exts. suffix e s)"
  by (simp add: endswith_any_def list_ex_iff str_endswith_suffix)

lemma files_of_entries: "n \<in> set [n. (n, File) \<leftarrow> es] \<longleftrightarrow> (n, File) \<in> set es"
  by (induction es) (auto split: node.splits)

lemma os_walk_top:
  "(d, [n. (n, Dir _) \<leftarrow> es], [n. (n, File) \<leftarrow> es]) \<in> set (os_walk d es)"
  by (subst os_walk.simps) simp

lemma os_walk_sub:
  "(m, Dir sub) \<in> set es \<Longrightarrow> t \<in> set (os_walk (os_path_join d m) sub) \<Longrightarrow> t \<in> set (os_walk d es)"
  by (subst os_walk.simps) force

lemma os_walk_cases:
  assumes "(dp, ds, fs) \<in> set (os_walk d es)"
  obtains (top) "dp = d" "fs = [n. (n, File) \<leftarrow> es]"
    | (sub) m sub where "(m, Dir sub) \<in> set es"
        "(dp, ds, fs) \<in> set (os_walk (os_path_join d m) sub)"
  using assms by (subst (asm) os_walk.simps) (auto split: node.splits)

lemma walk_sound:
  "(dp, ds, fs) \<in> set (os_walk d es) \<Longrightarrow> n \<in> set fs \<Longrightarrow> file_under d es (os_path_join dp n) n"
proof (induction d es rule: os_walk.induct)
  case (1 dirpath es)
  from "1.prems"(1) show ?case
  proof (cases rule: os_walk_cases)
    case top
    with "1.prems"(2) have "(n, File) \<in> set es"
      by (simp only: files_of_entries)
    with top(1) show ?thesis
      by (simp add: file_under.here)
  next
    case (sub m sub)
    from "1.IH" [OF sub(1) refl refl sub(2) "1.prems"(2)] sub(1) show ?thesis
      by (rule file_under.deeper [rotated])
  qed
qed

lemma walk_complete:
  "file_under d es p n \<Longrightarrow>
     \<exists>dp ds fs. (dp, ds, fs) \<in> set (os_walk d es) \<and> n \<in> set fs \<and> p = os_path_join dp n"
proof (induction rule: file_under.induct)
  case (here n es d)
  then have "n \<in> set [n. (n, File) \<leftarrow> es]"
    by (simp only: files_of_entries)
  with os_walk_top [of d es] show ?case
    by blast
next
  case (deeper m sub es d p n)
  then obtain dp ds fs where
    "(dp, ds, fs) \<in> set (os_walk (os_path_join d m) sub)" "n \<in> set fs" "p = os_path_join dp n"
    by blast
  with os_walk_sub [OF deeper.hyps(1)] show ?case
    by blast
qed

lemma set_found:
  "set (concat (map (\<lambda>(dirpath, _, filenames).
          [os_path_join dirpath name. name \<leftarrow> filenames, P name]) (os_walk d es)))
   = {p. \<exists>n. file_under d es p n \<and> P n}"
  (is "?L = ?R")
proof (intro equalityI subsetI)
  fix p assume "p \<in> ?L"
  then obtain dp ds fs n where "(dp, ds, fs) \<in> set (os_walk d es)" "n \<in> set fs" "P n"
    "p = os_path_join dp n"
    by auto
  then show "p \<in> ?R"
    using walk_sound by blast
next
  fix p assume "p \<in> ?R"
  then obtain n where "file_under d es p n" "P n" by blast
  from walk_complete [OF this(1)] obtain dp ds fs where
    "(dp, ds, fs) \<in> set (os_walk d es)" "n \<in> set fs" "p = os_path_join dp n"
    by blast
  with \<open>P n\<close> show "p \<in> ?L"
    by force
qed

subsection \<open>Effects of the single statements\<close>

lemma trace_emit [simp]: "trace (emit e s) = trace s @ [e]"
  by (simp add: emit_def)

lemma fsys_emit [simp]: "fsys (emit e s) = fsys s"
  by (simp add: emit_def)

lemma trace_print [simp]: "trace (print l s) = trace s @ [Stdout l]"
  by (simp add: print_def)

lemma fsys_print [simp]: "fsys (print l s) = fsys s"
  by (simp add: print_def)

lemma trace_eprint [simp]: "trace (eprint l s) = trace s @ [Stderr l]"
  by (simp add: eprint_def)

lemma fsys_eprint [simp]: "fsys (eprint l s) = fsys s"
  by (simp add: eprint_def)

lemma attempted_append [simp]: "attempted (xs @ ys) = attempted xs @ attempted ys"
  by (induction xs rule: attempted.induct) simp_all

lemma ensure_dir_trace: "ensure_dir d s = (r, s') \<Longrightarrow> trace s' = trace s @ [MakeDirs d]"
  by (auto simp: ensure_dir_def Let_def split: sum.splits)

lemma save_text_trace: "save_text p c s = (r, s') \<Longrightarrow> trace s' = trace s @ [SaveText p c]"
  by (auto simp: save_text_def Let_def split: sum.splits)

lemma write_timecoded_trace:
  "write_timecoded w r f d k s = (x, s') \<Longrightarrow> trace s' = trace s @ [WriteTimecoded f d k]"
  by (auto simp: write_timecoded_def Let_def split: sum.splits)

lemma outputs_only_refl [simp]: "outputs_only s s"
  by (simp add: outputs_only_def)

lemma outputs_only_trans: "outputs_only s s1 \<Longrightarrow> outputs_only s1 s2 \<Longrightarrow> outputs_only s s2"
  by (auto simp: outputs_only_def)

lemma save_text_outputs_only: "save_text p c s = (x, s') \<Longrightarrow> outputs_only s s'"
  by (auto simp: outputs_only_def dest: save_text_trace)

lemma try_write_timecoded_outputs_only: "outputs_only s (try_write_timecoded w r f d k l s)"
proof (cases "write_timecoded w r f d k s")
  case (Pair x s1)
  from write_timecoded_trace [OF Pair] Pair show ?thesis
    by (cases x) (auto simp: try_write_timecoded_def outputs_only_def)
qed

lemma outputs_only_try:
  "outputs_only s s1 \<Longrightarrow> outputs_only s (try_write_timecoded w r f d k l s1)"
  by (rule outputs_only_trans [OF _ try_write_timecoded_outputs_only])

lemma write_outputs_outputs_only:
  assumes "write_outputs w fmts r f d b s = (x, s')"
  shows "outputs_only s s'"
  using assms unfolding write_outputs_def and_then_def Let_def
  by (auto split: if_splits prod.splits option.splits
           dest!: save_text_outputs_only
           intro!: outputs_only_try intro: outputs_only_trans)

subsection \<open>One iteration of the loop\<close>

text \<open>The five ways an iteration can go, as a case rule.\<close>

lemma process_files_step:
  assumes "process_files w a fmts (f # files) fl s = (out, s')"
  obtains
    (mkdir_raised) e where
      "ensure_dir (out_folder_of a f) s = (Some e, s')" "out = Uncaught e"
  | (failed_stop) s1 exc where
      "ensure_dir (out_folder_of a f) s = (None, s1)"
      "transcribe_whisper w f (model a) (device a) (language a) = Inl exc"
      "fail_on_error a" "out = Exit 1"
      "s' = eprint (''Failed transcription for '' @ f @ '': '' @ str_exn exc)
              (emit (Transcribe f) (print (''Transcribing: '' @ f) s1))"
  | (failed_next) s1 exc where
      "ensure_dir (out_folder_of a f) s = (None, s1)"
      "transcribe_whisper w f (model a) (device a) (language a) = Inl exc"
      "\<not> fail_on_error a"
      "process_files w a fmts files (fl @ [f])
         (eprint (''Failed transcription for '' @ f @ '': '' @ str_exn exc)
              (emit (Transcribe f) (print (''Transcribing: '' @ f) s1))) = (out, s')"
  | (write_raised) s1 r e where
      "ensure_dir (out_folder_of a f) s = (None, s1)"
      "transcribe_whisper w f (model a) (device a) (language a) = Inr r"
      "write_outputs w fmts r f (out_folder_of a f) (base_of f)
         (emit (Transcribe f) (print (''Transcribing: '' @ f) s1)) = (Some e, s')"
      "out = Uncaught e"
  | (written_next) s1 r s2 where
      "ensure_dir (out_folder_of a f) s = (None, s1)"
      "transcribe_whisper w f (model a) (device a) (language a) = Inr r"
      "write_outputs w fmts r f (out_folder_of a f) (base_of f)
         (emit (Transcribe f) (print (''Transcribing: '' @ f) s1)) = (None, s2)"
      "process_files w a fmts files fl
         (print (''Saved transcripts to: '' @ out_folder_of a f) s2) = (out, s')"
  using assms
  by (auto simp: Let_def split: prod.splits option.splits sum.splits if_splits)

lemma process_files_status:
  "process_files w a fmts files fl s = (out, s') \<Longrightarrow>
     out = Exit 0 \<or> out = Exit 1 \<or> (\<exists>e. out = Uncaught e)"
proof (induction files arbitrary: fl s)
  case Nil
  then show ?case by (auto split: if_splits)
next
  case (Cons f files)
  from Cons.prems show ?case
    by (cases rule: process_files_step) (auto dest: Cons.IH)
qed

lemma attempted_outputs: "list_all output_event evs \<Longrightarrow> attempted evs = []"
  by (induction evs rule: attempted.induct) simp_all

lemma outputs_only_attempted: "outputs_only s s' \<Longrightarrow> attempted (trace s') = attempted (trace s)"
  by (auto simp: outputs_only_def attempted_outputs)

lemma ensure_dir_attempted: "ensure_dir d s = (x, s') \<Longrightarrow> attempted (trace s') = attempted (trace s)"
  by (simp add: ensure_dir_trace)

lemma write_outputs_attempted:
  "write_outputs w fmts r f d b s = (x, s') \<Longrightarrow> attempted (trace s') = attempted (trace s)"
  by (rule outputs_only_attempted [OF write_outputs_outputs_only])

subsection \<open>The files the loop attempts\<close>

lemma process_files_all_attempted:
  assumes "\<not> fail_on_error a"
    and "process_files w a fmts files fl s = (out, s')"
    and "\<forall>e. out \<noteq> Uncaught e"
  shows "out = Exit 0 \<and> attempted (trace s') = attempted (trace s) @ files"
  using assms(2,3)
proof (induction files arbitrary: fl s)
  case Nil
  with assms(1) show ?case by simp
next
  case (Cons f files)
  from Cons.prems(1) show ?case
  proof (cases rule: process_files_step)
    case (mkdir_raised e)
    with Cons.prems(2) show ?thesis by simp
  next
    case (failed_stop s1 exc)
    with assms(1) show ?thesis by simp
  next
    case (failed_next s1 exc)
    from Cons.IH [OF failed_next(4) Cons.prems(2)] ensure_dir_attempted [OF failed_next(1)]
    show ?thesis by simp
  next
    case (write_raised s1 r e)
    with Cons.prems(2) show ?thesis by simp
  next
    case (written_next s1 r s2)
    from Cons.IH [OF written_next(4) Cons.prems(2)] ensure_dir_attempted [OF written_next(1)]
      write_outputs_attempted [OF written_next(3)]
    show ?thesis by simp
  qed
qed

lemma process_files_nonzero:
  assumes "process_files w a fmts files fl s = (Exit n, s')" and "n \<noteq> 0"
  shows "n = 1 \<and> fail_on_error a \<and>
         (fl \<noteq> [] \<or> (\<exists>f \<in> set files. \<exists>exc.
            transcribe_whisper w f (model a) (device a) (language a) = Inl exc))"
  using assms(1)
proof (induction files arbitrary: fl s)
  case Nil
  with assms(2) show ?case by (auto split: if_splits)
next
  case (Cons f files)
  from Cons.prems show ?case
  proof (cases rule: process_files_step)
    case (failed_next s1 exc)
    from Cons.IH [OF failed_next(4)] failed_next(2) show ?thesis by auto
  next
    case (written_next s1 r s2)
    from Cons.IH [OF written_next(4)] show ?thesis by auto
  qed auto
qed

lemma process_files_fail_fast:
  assumes "fail_on_error a"
    and "\<forall>g \<in> set pre. \<exists>r. transcribe_whisper w g (model a) (device a) (language a) = Inr r"
    and "transcribe_whisper w f (model a) (device a) (language a) = Inl exc"
    and "process_files w a fmts (pre @ f # post) fl s = (out, s')"
  shows "exit_status out = 1 \<and>
         (\<exists>xs. attempted (trace s') = attempted (trace s) @ xs \<and> prefix xs (pre @ [f])) \<and>
         ((\<forall>e. out \<noteq> Uncaught e) \<longrightarrow>
            out = Exit 1 \<and> attempted (trace s') = attempted (trace s) @ pre @ [f])"
  using assms(2,4)
proof (induction pre arbitrary: fl s)
  case Nil
  from Nil.prems(2) have "process_files w a fmts (f # post) fl s = (out, s')" by simp
  then show ?case
  proof (cases rule: process_files_step)
    case (mkdir_raised e)
    then show ?thesis by (simp add: ensure_dir_trace)
  next
    case (failed_stop s1 exc')
    then show ?thesis by (simp add: ensure_dir_trace)
  next
    case (failed_next s1 exc')
    with assms(1) show ?thesis by simp
  next
    case (write_raised s1 r e)
    with assms(3) show ?thesis by simp
  next
    case (written_next s1 r s2)
    with assms(3) show ?thesis by simp
  qed
next
  case (Cons g pre)
  from Cons.prems(1) have rest: "\<forall>g \<in> set pre. \<exists>r. transcribe_whisper w g (model a) (device a) (language a) = Inr r"
    and g: "\<exists>r. transcribe_whisper w g (model a) (device a) (language a) = Inr r"
    by simp_all
  from Cons.prems(2) have "process_files w a fmts (g # (pre @ f # post)) fl s = (out, s')" by simp
  then show ?case
  proof (cases rule: process_files_step)
    case (mkdir_raised e)
    then show ?thesis by (simp add: ensure_dir_trace)
  next
    case (failed_stop s1 exc')
    with g show ?thesis by simp
  next
    case (failed_next s1 exc')
    with g show ?thesis by simp
  next
    case (write_raised s1 r e)
    from ensure_dir_attempted [OF write_raised(1)] write_outputs_attempted [OF write_raised(3)]
      write_raised(4)
    show ?thesis by simp
  next
    case (written_next s1 r s2)
    from Cons.IH [OF rest written_next(4)] ensure_dir_attempted [OF written_next(1)]
      write_outputs_attempted [OF written_next(3)]
    show ?thesis by auto
  qed
qed

subsection \<open>main\<close>


lemma find_unsupported:
  "(\<exists>bad. find (\<lambda>fmt. fmt \<notin> set supported) fmts = Some bad) = (\<not> set fmts \<subseteq> set supported)"
proof -
  have "(find (\<lambda>fmt. fmt \<notin> set supported) fmts \<noteq> None) = (\<exists>x \<in> set fmts. x \<notin> set supported)"
    by (auto simp: find_None_iff)
  then show ?thesis by auto
qed

lemma concat_map_if: "concat (map (\<lambda>x. if P x then [f x] else []) xs) = map f (filter P xs)"
  by (induction xs) simp_all

lemma main_rejects:
  assumes "find (\<lambda>fmt. fmt \<notin> set supported) (parse_formats (formats a)) = Some bad"
  shows "main w a s = (Exit 2, eprint (unsupported_message bad) s)"
  using assms by (simp add: main_def)

lemma main_no_files:
  assumes "set (parse_formats (formats a)) \<subseteq> set supported"
    and "find_audio_files (input a) (at_input w) audio_exts = []"
  shows "main w a s =
           (Exit 0, eprint ''No audio files found to transcribe.'' (emit (Scan (input a)) s))"
proof -
  from assms(1) have "find (\<lambda>fmt. fmt \<notin> set supported) (parse_formats (formats a)) = None"
    by (auto simp: find_None_iff)
  with assms(2) show ?thesis by (simp add: main_def)
qed

lemma main_batch:
  assumes "set (parse_formats (formats a)) \<subseteq> set supported"
    and "find_audio_files (input a) (at_input w) audio_exts \<noteq> []"
    and "main w a s = (out, s')"
  obtains (root_raised) e where
      "ensure_dir (out_dir a) (emit (Scan (input a)) s) = (Some e, s')" "out = Uncaught e"
  | (batch) s1 where
      "ensure_dir (out_dir a) (emit (Scan (input a)) s) = (None, s1)"
      "process_files w a (parse_formats (formats a))
         (find_audio_files (input a) (at_input w) audio_exts) [] s1 = (out, s')"
proof -
  from assms(1) have "find (\<lambda>fmt. fmt \<notin> set supported) (parse_formats (formats a)) = None"
    by (auto simp: find_None_iff)
  with assms(2,3) that show ?thesis
    by (auto simp: main_def Let_def split: prod.splits option.splits)
qed

subsection \<open>Directories stay\<close>

lemma dirs_kept_refl [simp]: "dirs_kept fs fs"
  by (simp add: dirs_kept_def)

lemma dirs_kept_trans: "dirs_kept fs fs1 \<Longrightarrow> dirs_kept fs1 fs2 \<Longrightarrow> dirs_kept fs fs2"
  by (simp add: dirs_kept_def)

lemma os_makedirs_made:
  assumes "os_makedirs d ok fs = Inr fs'"
  shows "fs' d = Some IsDir" and "dirs_kept fs fs'"
  using assms
  by (auto simp: os_makedirs_def dirs_kept_def split: option.splits entry.splits if_splits)

lemma os_makedirs_exists: "fs d = Some IsDir \<Longrightarrow> os_makedirs d True fs = Inr fs"
  by (simp add: os_makedirs_def)

lemma open_write_written:
  assumes "open_write p c fs = Inr fs'"
  shows "fs' = fs(p \<mapsto> IsFile c)" and "fs p \<noteq> Some IsDir"
  using assms by (auto simp: open_write_def Let_def split: if_splits)

lemma open_write_kept:
  assumes "open_write p c fs = Inr fs'"
  shows "dirs_kept fs fs'"
  using open_write_written [OF assms] by (auto simp: dirs_kept_def)

lemma ensure_dir_made:
  assumes "ensure_dir d s = (None, s')"
  shows "fsys s' d = Some IsDir"
  using assms
  by (auto simp: ensure_dir_def Let_def split: sum.splits dest: os_makedirs_made(1))

lemma ensure_dir_kept: "ensure_dir d s = (x, s') \<Longrightarrow> dirs_kept (fsys s) (fsys s')"
  by (auto simp: ensure_dir_def Let_def split: sum.splits dest: os_makedirs_made(2))

lemma ensure_dir_exists:
  "fsys s d = Some IsDir \<Longrightarrow> ensure_dir d s = (None, emit (MakeDirs d) s)"
  by (simp add: ensure_dir_def Let_def os_makedirs_exists emit_def)

lemma save_text_kept: "save_text p c s = (x, s') \<Longrightarrow> dirs_kept (fsys s) (fsys s')"
  by (auto simp: save_text_def Let_def split: sum.splits dest: open_write_kept)


lemma write_timecoded_kept:
  "write_timecoded w r f d k s = (x, s') \<Longrightarrow> dirs_kept (fsys s) (fsys s')"
  by (auto simp: write_timecoded_def Let_def split: sum.splits dest: open_write_kept)

lemma try_write_timecoded_kept:
  "dirs_kept (fsys s) (fsys (try_write_timecoded w r f d k l s))"
proof (cases "write_timecoded w r f d k s")
  case (Pair x s1)
  from write_timecoded_kept [OF Pair] Pair show ?thesis
    by (cases x) (simp_all add: try_write_timecoded_def)
qed

lemma dirs_kept_try:
  "dirs_kept fs (fsys s1) \<Longrightarrow> dirs_kept fs (fsys (try_write_timecoded w r f d k l s1))"
  by (rule dirs_kept_trans [OF _ try_write_timecoded_kept])

lemma write_outputs_kept:
  assumes "write_outputs w fmts r f d b s = (x, s')"
  shows "dirs_kept (fsys s) (fsys s')"
  using assms unfolding write_outputs_def and_then_def Let_def
  by (auto split: if_splits prod.splits option.splits
           dest!: save_text_kept
           intro!: dirs_kept_try intro: dirs_kept_trans)

subsection \<open>Directories before transcription\<close>

lemma dirs_first_mono:
  "dirs_first folder made evs \<Longrightarrow> made \<subseteq> made' \<Longrightarrow> dirs_first folder made' evs"
proof (induction folder made evs arbitrary: made' rule: dirs_first.induct)
  case (2 folder made d evs)
  from "2.prems" have "dirs_first folder (insert d made) evs" "insert d made \<subseteq> insert d made'"
    by auto
  then have "dirs_first folder (insert d made') evs"
    by (rule "2.IH")
  then show ?case by simp
next
  case (3 folder made f evs)
  then show ?case by auto
qed simp_all

lemma dirs_first_outputs:
  "list_all output_event xs \<Longrightarrow> dirs_first folder made (xs @ ys) = dirs_first folder made ys"
  by (induction folder made xs rule: dirs_first.induct) simp_all

lemma dirs_first_before:
  "dirs_first folder made evs \<Longrightarrow> evs = pre @ Transcribe f # post \<Longrightarrow>
     folder f \<in> made \<or> MakeDirs (folder f) \<in> set pre"
proof (induction evs arbitrary: made pre)
  case Nil
  then show ?case by simp
next
  case (Cons e evs)
  show ?case
  proof (cases pre)
    case Nil
    with Cons.prems show ?thesis by simp
  next
    case pre: (Cons e' pre')
    with Cons.prems(2) have e: "e' = e" and evs: "evs = pre' @ Transcribe f # post"
      by simp_all
    show ?thesis
    proof (cases e)
      case (MakeDirs d)
      with Cons.prems(1) have "dirs_first folder (insert d made) evs" by simp
      from Cons.IH [OF this evs] pre e MakeDirs show ?thesis by auto
    next
      case (Transcribe g)
      with Cons.prems(1) have "dirs_first folder made evs" by simp
      from Cons.IH [OF this evs] pre show ?thesis by auto
    next
      case (Stdout l)
      with Cons.prems(1) have "dirs_first folder made evs" by simp
      from Cons.IH [OF this evs] pre show ?thesis by auto
    next
      case (Stderr l)
      with Cons.prems(1) have "dirs_first folder made evs" by simp
      from Cons.IH [OF this evs] pre show ?thesis by auto
    next
      case (Scan l)
      with Cons.prems(1) have "dirs_first folder made evs" by simp
      from Cons.IH [OF this evs] pre show ?thesis by auto
    next
      case (SaveText p c)
      with Cons.prems(1) have "dirs_first folder made evs" by simp
      from Cons.IH [OF this evs] pre show ?thesis by auto
    next
      case (WriteTimecoded p d k)
      with Cons.prems(1) have "dirs_first folder made evs" by simp
      from Cons.IH [OF this evs] pre show ?thesis by auto
    qed
  qed
qed

text \<open>
  What a run of the loop adds to the trace, and what it leaves on the file system for
  the files it called the recognition capability on.
\<close>

lemma process_files_dirs:
  assumes "process_files w a fmts files fl s = (out, s')"
  shows "dirs_kept (fsys s) (fsys s') \<and>
         (\<exists>evs. trace s' = trace s @ evs \<and>
            dirs_first (out_folder_of a) {} evs \<and>
            (\<forall>f \<in> set (attempted evs). fsys s' (out_folder_of a f) = Some IsDir))"
  using assms
proof (induction files arbitrary: fl s)
  case Nil
  then have "s' = s" by (auto split: if_splits)
  then show ?case by simp
next
  case (Cons f files)
  let ?d = "out_folder_of a f"
  from Cons.prems show ?case
  proof (cases rule: process_files_step)
    case (mkdir_raised e)
    from ensure_dir_kept [OF mkdir_raised(1)] ensure_dir_trace [OF mkdir_raised(1)]
    show ?thesis by simp
  next
    case (failed_stop s1 exc)
    from ensure_dir_kept [OF failed_stop(1)] ensure_dir_trace [OF failed_stop(1)]
      ensure_dir_made [OF failed_stop(1)] failed_stop(5)
    show ?thesis by simp
  next
    case (failed_next s1 exc)
    let ?s2 = "eprint (''Failed transcription for '' @ f @ '': '' @ str_exn exc)
              (emit (Transcribe f) (print (''Transcribing: '' @ f) s1))"
    from Cons.IH [OF failed_next(4)] obtain evs where
      k: "dirs_kept (fsys ?s2) (fsys s')" and t: "trace s' = trace ?s2 @ evs"
      and df: "dirs_first (out_folder_of a) {} evs"
      and at: "\<forall>g \<in> set (attempted evs). fsys s' (out_folder_of a g) = Some IsDir"
      by blast
    have k1: "dirs_kept (fsys s) (fsys s1)" by (rule ensure_dir_kept [OF failed_next(1)])
    have d1: "fsys s1 ?d = Some IsDir" by (rule ensure_dir_made [OF failed_next(1)])
    from k have k2: "dirs_kept (fsys s1) (fsys s')" by simp
    let ?evs = "[MakeDirs ?d, Stdout (''Transcribing: '' @ f), Transcribe f,
                 Stderr (''Failed transcription for '' @ f @ '': '' @ str_exn exc)] @ evs"
    have "trace s' = trace s @ ?evs"
      using t ensure_dir_trace [OF failed_next(1)] by simp
    moreover have "dirs_first (out_folder_of a) {} ?evs"
      using dirs_first_mono [OF df, of "{?d}"] by simp
    moreover have "\<forall>g \<in> set (attempted ?evs). fsys s' (out_folder_of a g) = Some IsDir"
      using at d1 k2 by (auto simp: dirs_kept_def)
    moreover have "dirs_kept (fsys s) (fsys s')"
      by (rule dirs_kept_trans [OF k1 k2])
    ultimately show ?thesis by blast
  next
    case (write_raised s1 r e)
    let ?s1' = "emit (Transcribe f) (print (''Transcribing: '' @ f) s1)"
    from write_outputs_outputs_only [OF write_raised(3)] obtain ovs where
      t: "trace s' = trace ?s1' @ ovs" and o: "list_all output_event ovs"
      by (auto simp: outputs_only_def)
    have k1: "dirs_kept (fsys s) (fsys s1)" by (rule ensure_dir_kept [OF write_raised(1)])
    have d1: "fsys s1 ?d = Some IsDir" by (rule ensure_dir_made [OF write_raised(1)])
    from write_outputs_kept [OF write_raised(3)] have k2: "dirs_kept (fsys s1) (fsys s')"
      by simp
    let ?evs = "[MakeDirs ?d, Stdout (''Transcribing: '' @ f), Transcribe f] @ ovs"
    have "trace s' = trace s @ ?evs"
      using t ensure_dir_trace [OF write_raised(1)] by simp
    moreover have "dirs_first (out_folder_of a) {} ?evs"
      using dirs_first_outputs [OF o, of "out_folder_of a" "{?d}" "[]"] by simp
    moreover have "\<forall>g \<in> set (attempted ?evs). fsys s' (out_folder_of a g) = Some IsDir"
      using d1 k2 o by (auto simp: dirs_kept_def attempted_outputs)
    moreover have "dirs_kept (fsys s) (fsys s')"
      by (rule dirs_kept_trans [OF k1 k2])
    ultimately show ?thesis by blast
  next
    case (written_next s1 r s2)
    let ?s1' = "emit (Transcribe f) (print (''Transcribing: '' @ f) s1)"
    let ?s2' = "print (''Saved transcripts to: '' @ ?d) s2"
    from write_outputs_outputs_only [OF written_next(3)] obtain ovs where
      t1: "trace s2 = trace ?s1' @ ovs" and o: "list_all output_event ovs"
      by (auto simp: outputs_only_def)
    from Cons.IH [OF written_next(4)] obtain evs where
      k: "dirs_kept (fsys ?s2') (fsys s')" and t: "trace s' = trace ?s2' @ evs"
      and df: "dirs_first (out_folder_of a) {} evs"
      and at: "\<forall>g \<in> set (attempted evs). fsys s' (out_folder_of a g) = Some IsDir"
      by blast
    have k1: "dirs_kept (fsys s) (fsys s1)" by (rule ensure_dir_kept [OF written_next(1)])
    have d1: "fsys s1 ?d = Some IsDir" by (rule ensure_dir_made [OF written_next(1)])
    from write_outputs_kept [OF written_next(3)] have "dirs_kept (fsys s1) (fsys s2)"
      by simp
    with k have k2: "dirs_kept (fsys s1) (fsys s')"
      by (auto intro: dirs_kept_trans)
    let ?evs = "[MakeDirs ?d, Stdout (''Transcribing: '' @ f), Transcribe f] @ ovs
                  @ [Stdout (''Saved transcripts to: '' @ ?d)] @ evs"
    have "trace s' = trace s @ ?evs"
      using t t1 ensure_dir_trace [OF written_next(1)] by simp
    moreover have "dirs_first (out_folder_of a) {} ?evs"
      using dirs_first_mono [OF df, of "{?d}"] dirs_first_outputs [OF o, of "out_folder_of a" "{?d}"]
      by simp
    moreover have "\<forall>g \<in> set (attempted ?evs). fsys s' (out_folder_of a g) = Some IsDir"
      using at d1 k2 o by (auto simp: dirs_kept_def attempted_outputs)
    moreover have "dirs_kept (fsys s) (fsys s')"
      by (rule dirs_kept_trans [OF k1 k2])
    ultimately show ?thesis by blast
  qed
qed

lemma main_dirs:
  assumes "main w a s = (out, s')"
  shows "\<exists>evs. trace s' = trace s @ evs \<and>
            dirs_first (out_folder_of a) {} evs \<and>
            (\<forall>f \<in> set (attempted evs). fsys s' (out_folder_of a f) = Some IsDir)"
proof (cases "set (parse_formats (formats a)) \<subseteq> set supported")
  case False
  then obtain bad where "find (\<lambda>fmt. fmt \<notin> set supported) (parse_formats (formats a)) = Some bad"
    using find_unsupported by blast
  from main_rejects [OF this, of w s] assms
  have "trace s' = trace s @ [Stderr (unsupported_message bad)]" by auto
  then show ?thesis by simp
next
  case valid: True
  show ?thesis
  proof (cases "find_audio_files (input a) (at_input w) audio_exts = []")
    case True
    from main_no_files [OF valid True, of s] assms
    have "trace s' = trace s @ [Scan (input a), Stderr ''No audio files found to transcribe.'']"
      by auto
    then show ?thesis by simp
  next
    case False
    from valid False assms show ?thesis
    proof (cases rule: main_batch)
      case (root_raised e)
      from ensure_dir_trace [OF root_raised(1)]
      have "trace s' = trace s @ [Scan (input a), MakeDirs (out_dir a)]" by simp
      then show ?thesis by simp
    next
      case (batch s1)
      from process_files_dirs [OF batch(2)] obtain evs where
        t: "trace s' = trace s1 @ evs" and df: "dirs_first (out_folder_of a) {} evs"
        and at: "\<forall>f \<in> set (attempted evs). fsys s' (out_folder_of a f) = Some IsDir"
        by blast
      let ?evs = "[Scan (input a), MakeDirs (out_dir a)] @ evs"
      have "trace s' = trace s @ ?evs"
        using t ensure_dir_trace [OF batch(1)] by simp
      moreover have "dirs_first (out_folder_of a) {} ?evs"
        using dirs_first_mono [OF df, of "{out_dir a}"] by simp
      moreover have "\<forall>f \<in> set (attempted ?evs). fsys s' (out_folder_of a f) = Some IsDir"
        using at by simp
      ultimately show ?thesis by blast
    qed
  qed
qed

subsection \<open>Paths below a directory\<close>

lemma basename_no_slash: "CHR ''/'' \<notin> set (os_path_basename p)"
proof
  assume "CHR ''/'' \<in> set (os_path_basename p)"
  then have "CHR ''/'' \<in> set (takeWhile (\<lambda>c. c \<noteq> CHR ''/'') (rev p))"
    by (simp add: os_path_basename_def)
  then show False
    by (auto dest: set_takeWhileD)
qed

lemma basename_subset: "set (os_path_basename p) \<subseteq> set p"
proof -
  have "set (takeWhile (\<lambda>c. c \<noteq> CHR ''/'') (rev p)) \<subseteq> set (rev p)"
    by (auto dest: set_takeWhileD)
  then show ?thesis by (simp add: os_path_basename_def)
qed

lemma splitext_fst_subset: "set (fst (os_path_splitext p)) \<subseteq> set p"
proof -
  have "set (take n p) \<subseteq> set p" for n
    by (rule set_take_subset)
  moreover have "set (take n (os_path_basename p)) \<subseteq> set p" for n
    using set_take_subset [of n "os_path_basename p"] basename_subset [of p] by blast
  ultimately show ?thesis
    by (simp add: os_path_splitext_def Let_def)
qed

lemma base_of_no_slash: "CHR ''/'' \<notin> set (base_of f)"
  using splitext_fst_subset [of "os_path_basename f"] basename_no_slash [of f]
  by (auto simp: base_of_def)


lemma join_name:
  "is_name n \<Longrightarrow>
     os_path_join d n = (if d = [] \<or> last d = CHR ''/'' then d @ n else d @ ''/'' @ n)"
  by (cases n) (auto simp: is_name_def os_path_join_def)

lemma join_inj: "is_name n \<Longrightarrow> is_name m \<Longrightarrow> os_path_join d n = os_path_join d m \<Longrightarrow> n = m"
  by (simp add: join_name split: if_splits)






subsection \<open>What the processing of one file leaves untouched\<close>










lemma name_before_slash:
  assumes "CHR ''/'' \<notin> set x" and "CHR ''/'' \<notin> set y"
    and "x @ CHR ''/'' # u = y @ CHR ''/'' # v"
  shows "x = y"
proof -
  from assms(1) have "takeWhile (\<lambda>c. c \<noteq> CHR ''/'') (x @ CHR ''/'' # u) = x"
    by (auto simp: takeWhile_tail)
  moreover from assms(2) have "takeWhile (\<lambda>c. c \<noteq> CHR ''/'') (y @ CHR ''/'' # v) = y"
    by (auto simp: takeWhile_tail)
  ultimately show ?thesis
    using assms(3) by simp
qed




lemma is_name_base: "is_name (base_of f) = (base_of f \<noteq> [])"
  using base_of_no_slash [of f] by (simp add: is_name_def)



subsection \<open>Errors of the caption writer\<close>

lemma try_write_timecoded_reports:
  assumes "get_writer w kind r = Inl e"
  shows "trace (try_write_timecoded w r f d kind l s)
           = trace s @ [WriteTimecoded f d kind,
                        Stderr (''Failed '' @ l @ '' writing for '' @ f @ '': '' @ str_exn e)]"
  using assms by (simp add: try_write_timecoded_def write_timecoded_def Let_def)

lemma write_outputs_raises_only_text_or_json:
  assumes "''txt'' \<notin> set fmts" and "''json'' \<notin> set fmts"
  shows "fst (write_outputs w fmts r f d b s) = None"
  using assms by (simp add: write_outputs_def and_then_def Let_def)

lemma out_folder_under_root: "prefix (out_dir a) (out_folder_of a f)"
proof (cases "base_of f = []")
  case True
  then show ?thesis
    by (simp add: out_folder_of_def os_path_join_def)
next
  case False
  then have "is_name (base_of f)"
    by (simp add: is_name_base)
  then show ?thesis
    by (simp add: out_folder_of_def join_name)
qed

subsection \<open>No path is found twice\<close>

lemma proper_entriesD:
  assumes "proper_entries es"
  shows "distinct (map fst es)"
    and "(n, x) \<in> set es \<Longrightarrow> is_name n"
    and "(n, Dir sub) \<in> set es \<Longrightarrow> proper_entries sub"
  using assms by (subst (asm) proper_entries.simps; force)+

lemma found_in_unfold:
  "found_in P d es =
     [os_path_join d name. name \<leftarrow> [n. (n, File) \<leftarrow> es], P name]
       @ concat (map (\<lambda>(n, x). case x of Dir sub \<Rightarrow> found_in P (os_path_join d n) sub | File \<Rightarrow> []) es)"
proof -
  have "concat (map (\<lambda>(dirpath, _, filenames).
          [os_path_join dirpath name. name \<leftarrow> filenames, P name])
          (concat (map (\<lambda>(n, x). case x of Dir sub \<Rightarrow> os_walk (os_path_join d n) sub | File \<Rightarrow> []) es)))
        = concat (map (\<lambda>(n, x). case x of Dir sub \<Rightarrow> found_in P (os_path_join d n) sub | File \<Rightarrow> []) es)"
    by (induction es) (auto simp: found_in_def split: node.splits)
  then show ?thesis
    by (subst found_in_def, subst os_walk.simps) (simp add: found_in_def)
qed

lemma set_found_in: "set (found_in P d es) = {p. \<exists>n. file_under d es p n \<and> P n}"
  unfolding found_in_def by (rule set_found)

lemma name_last:
  assumes "is_name m"
  shows "last m \<noteq> CHR ''/''"
proof
  assume "last m = CHR ''/''"
  moreover from assms have "last m \<in> set m"
    by (simp add: is_name_def)
  ultimately show False
    using assms by (simp add: is_name_def)
qed

lemma under_has_prefix:
  assumes "file_under D es p n" and "proper_entries es" and "D \<noteq> []" and "last D \<noteq> CHR ''/''"
  shows "\<exists>u. p = D @ ''/'' @ u"
  using assms
proof (induction rule: file_under.induct)
  case (here n es d)
  from proper_entriesD(2) [OF here.prems(1) here.hyps] here.prems(2,3) show ?case
    by (simp add: join_name)
next
  case (deeper m sub es d p n)
  from proper_entriesD(2) [OF deeper.prems(1) deeper.hyps(1)] have m: "is_name m" .
  with deeper.prems(2,3) have j: "os_path_join d m = d @ ''/'' @ m"
    by (simp add: join_name)
  from m have "last (d @ ''/'' @ m) \<noteq> CHR ''/''"
    using name_last [OF m] by (simp add: is_name_def)
  with deeper.IH [OF proper_entriesD(3) [OF deeper.prems(1) deeper.hyps(1)]] j
  obtain u where "p = (d @ ''/'' @ m) @ ''/'' @ u"
    by auto
  then show ?case by simp
qed

lemma under_subdir_form:
  assumes "file_under (os_path_join d m) sub p n" and "proper_entries sub" and "is_name m"
  shows "\<exists>u. p = os_path_join d m @ ''/'' @ u"
proof -
  from assms(3) have ne: "os_path_join d m \<noteq> []" and "last (os_path_join d m) = last m"
    by (auto simp: join_name is_name_def)
  with name_last [OF assms(3)] have "last (os_path_join d m) \<noteq> CHR ''/''"
    by simp
  from under_has_prefix [OF assms(1,2) ne this] show ?thesis .
qed

lemma distinct_concat_map:
  assumes "distinct (map fst es)"
    and "\<And>e. e \<in> set es \<Longrightarrow> distinct (h e)"
    and "\<And>e e'. e \<in> set es \<Longrightarrow> e' \<in> set es \<Longrightarrow> fst e \<noteq> fst e' \<Longrightarrow> set (h e) \<inter> set (h e') = {}"
  shows "distinct (concat (map h es))"
  using assms
proof (induction es)
  case Nil
  then show ?case by simp
next
  case (Cons e es)
  have "set (h e) \<inter> set (h e') = {}" if "e' \<in> set es" for e'
  proof -
    from Cons.prems(1) that have "fst e \<noteq> fst e'" by auto
    with that show ?thesis by (intro Cons.prems(3)) simp_all
  qed
  moreover have "distinct (concat (map h es))"
    using Cons.prems by (intro Cons.IH) auto
  ultimately show ?case
    using Cons.prems(2) [of e] by auto
qed

lemma distinct_found_in:
  "proper_entries es \<Longrightarrow> distinct (found_in P d es)"
proof (induction d es rule: os_walk.induct)
  case (1 d es)
  let ?h = "\<lambda>(n, x). case x of Dir sub \<Rightarrow> found_in P (os_path_join d n) sub | File \<Rightarrow> []"
  let ?top = "[os_path_join d name. name \<leftarrow> [n. (n, File) \<leftarrow> es], P name]"
  note names = proper_entriesD(2) [OF "1.prems"]
  have dn: "distinct (map fst es)"
    by (rule proper_entriesD(1) [OF "1.prems"])
  have sub_form: "\<exists>u. p = os_path_join d m @ ''/'' @ u"
    if "(m, Dir sub) \<in> set es" "p \<in> set (found_in P (os_path_join d m) sub)" for m sub p
  proof -
    from that(2) obtain n where "file_under (os_path_join d m) sub p n"
      by (auto simp: set_found_in)
    from under_subdir_form [OF this proper_entriesD(3) [OF "1.prems" that(1)] names [OF that(1)]]
    show ?thesis .
  qed
  have files_distinct: "distinct [n. (n, File) \<leftarrow> es]"
    using dn by (induction es) (auto split: node.splits simp: files_of_entries intro: rev_image_eqI)
  have top: "distinct ?top"
  proof -
    have "distinct (map (os_path_join d) (filter P [n. (n, File) \<leftarrow> es]))"
    proof (rule distinct_map [THEN iffD2], intro conjI)
      show "distinct (filter P [n. (n, File) \<leftarrow> es])"
        using files_distinct by simp
      show "inj_on (os_path_join d) (set (filter P [n. (n, File) \<leftarrow> es]))"
        by (rule inj_onI) (auto simp: files_of_entries dest!: names intro: join_inj)
    qed
    moreover have "?top = map (os_path_join d) (filter P [n. (n, File) \<leftarrow> es])"
      by (rule concat_map_if)
    ultimately show ?thesis by simp
  qed
  have subs: "distinct (concat (map ?h es))"
  proof (rule distinct_concat_map [OF dn])
    fix e assume e: "e \<in> set es"
    show "distinct (?h e)"
    proof (cases e)
      case (Pair m x)
      show ?thesis
      proof (cases x)
        case File
        with Pair show ?thesis by simp
      next
        case (Dir sub)
        from e Pair Dir have mem: "(m, Dir sub) \<in> set es" by simp
        from "1.IH" [OF e Pair [symmetric] Dir proper_entriesD(3) [OF "1.prems" mem]] Pair Dir
        show ?thesis by simp
      qed
    qed
  next
    fix e e' assume e: "e \<in> set es" "e' \<in> set es" "fst e \<noteq> fst e'"
    show "set (?h e) \<inter> set (?h e') = {}"
    proof (rule ccontr)
      assume "set (?h e) \<inter> set (?h e') \<noteq> {}"
      then obtain p where p: "p \<in> set (?h e)" "p \<in> set (?h e')" by blast
      obtain m x where ex: "e = (m, x)" by (cases e)
      obtain m' x' where ex': "e' = (m', x')" by (cases e')
      from p ex ex' obtain sub sub' where x: "x = Dir sub" "x' = Dir sub'"
        by (cases x; cases x') auto
      from p ex ex' x e have mem: "(m, Dir sub) \<in> set es" "(m', Dir sub') \<in> set es"
        and pin: "p \<in> set (found_in P (os_path_join d m) sub)"
          "p \<in> set (found_in P (os_path_join d m') sub')"
        by simp_all
      from sub_form [OF mem(1) pin(1)] obtain u where u: "p = os_path_join d m @ ''/'' @ u"
        by blast
      from sub_form [OF mem(2) pin(2)] obtain u' where u': "p = os_path_join d m' @ ''/'' @ u'"
        by blast
      from u u' have eq: "os_path_join d m @ ''/'' @ u = os_path_join d m' @ ''/'' @ u'"
        by simp
      from e ex ex' have nm: "is_name m" "is_name m'"
        using names by auto
      from eq nm have "m @ CHR ''/'' # u = m' @ CHR ''/'' # u'"
        by (simp add: join_name split: if_splits)
      from name_before_slash [OF _ _ this] nm have "m = m'"
        by (simp add: is_name_def)
      with e(3) ex ex' show False by simp
    qed
  qed
  have disj: "set ?top \<inter> set (concat (map ?h es)) = {}"
  proof (rule ccontr)
    assume "set ?top \<inter> set (concat (map ?h es)) \<noteq> {}"
    then obtain p where p: "p \<in> set ?top" "p \<in> set (concat (map ?h es))" by blast
    from p(1) obtain n where n: "(n, File) \<in> set es" "p = os_path_join d n"
      by (auto simp: files_of_entries)
    from p(2) obtain m sub where m: "(m, Dir sub) \<in> set es"
      "p \<in> set (found_in P (os_path_join d m) sub)"
      by (auto split: node.splits)
    from sub_form [OF m] obtain u where "p = os_path_join d m @ ''/'' @ u" by blast
    with n(2) have "os_path_join d n = os_path_join d m @ ''/'' @ u" by simp
    with names [OF n(1)] names [OF m(1)] have "n = m @ ''/'' @ u"
      by (simp add: join_name split: if_splits)
    with names [OF n(1)] show False
      by (simp add: is_name_def)
  qed
  from top subs disj show ?case
    by (subst found_in_unfold) simp
qed

lemma distinct_find_audio_files:
  "proper_entries es \<Longrightarrow> distinct (find_audio_files root (Some (Dir es)) E)"
  using distinct_found_in [of es "\<lambda>name. endswith_any (str_lower name) E" root]
  by (simp add: find_audio_files_def found_in_def)

subsection \<open>Runs without fail-fast mode\<close>

text \<open>
  What \<open>main\<close> does with valid formats when fail-fast mode is off, on the runs that no
  uncaught exception ends: it calls the recognition capability on every discovered
  file, in order, and returns 0. And whenever \<open>main\<close> returns a status other than 0,
  the status is 1, fail-fast mode is on and the transcription of some discovered file
  failed. A run that an uncaught exception ends is not covered.
\<close>

lemma main_without_fail_fast:
  assumes "set (parse_formats (formats a)) \<subseteq> set supported"
    and "main w a s = (out, s')"
  shows "(\<not> fail_on_error a \<and> (\<forall>e. out \<noteq> Uncaught e) \<longrightarrow>
            out = Exit 0 \<and>
            attempted (trace s')
              = attempted (trace s) @ find_audio_files (input a) (at_input w) audio_exts) \<and>
         (\<forall>n. out = Exit n \<and> n \<noteq> 0 \<longrightarrow>
            n = 1 \<and> fail_on_error a \<and>
            (\<exists>f \<in> set (find_audio_files (input a) (at_input w) audio_exts).
               \<exists>exc. transcribe_whisper w f (model a) (device a) (language a) = Inl exc))"
proof (cases "find_audio_files (input a) (at_input w) audio_exts = []")
  case True
  from main_no_files [OF assms(1) True, of s] assms(2) True show ?thesis
    by auto
next
  case False
  from assms(1) False assms(2) show ?thesis
  proof (cases rule: main_batch)
    case (root_raised e)
    then show ?thesis by simp
  next
    case (batch s1)
    have tr: "attempted (trace s1) = attempted (trace s)"
      using ensure_dir_attempted [OF batch(1)] by simp
    have "\<not> fail_on_error a \<and> (\<forall>e. out \<noteq> Uncaught e) \<longrightarrow>
            out = Exit 0 \<and>
            attempted (trace s')
              = attempted (trace s) @ find_audio_files (input a) (at_input w) audio_exts"
      using process_files_all_attempted [OF _ batch(2)] tr by simp
    moreover have "\<forall>n. out = Exit n \<and> n \<noteq> 0 \<longrightarrow>
            n = 1 \<and> fail_on_error a \<and>
            (\<exists>f \<in> set (find_audio_files (input a) (at_input w) audio_exts).
               \<exists>exc. transcribe_whisper w f (model a) (device a) (language a) = Inl exc)"
      using process_files_nonzero [of w a _ _ "[]" s1 _ s'] batch(2) by auto
    ultimately show ?thesis by (rule conjI)
  qed
qed

lemma main_without_fail_fast_example:
  "set (parse_formats (formats demo_args)) \<subseteq> set supported \<and>
   \<not> fail_on_error demo_args \<and>
   fst (main demo_env demo_args fresh) = Exit 0 \<and>
   attempted (trace (snd (main demo_env demo_args fresh)))
     = [''in/a.mp3'', ''in/b.wav'', ''in/c.MP3'']"
proof -
  have a: "set (parse_formats (formats demo_args)) \<subseteq> set supported"
    by code_simp
  have b: "\<not> fail_on_error demo_args"
    by (simp add: demo_args_def)
  have c: "fst (main demo_env demo_args fresh) = Exit 0"
    by code_simp
  have d: "find_audio_files (input demo_args) (at_input demo_env) audio_exts
             = [''in/a.mp3'', ''in/b.wav'', ''in/c.MP3'']"
    by code_simp
  have e: "trace fresh = []"
    by (simp add: fresh_def)
  have "main demo_env demo_args fresh
          = (fst (main demo_env demo_args fresh), snd (main demo_env demo_args fresh))"
    by simp
  from main_without_fail_fast [OF a this] b c d e
  have "attempted (trace (snd (main demo_env demo_args fresh)))
          = [''in/a.mp3'', ''in/b.wav'', ''in/c.MP3'']"
    by simp
  with a b c show ?thesis
    by (intro conjI)
qed

section \<open>The claims\<close>

text \<open>
  C1. The claim does not hold on the code. With fail-fast mode off, valid formats, three
  discovered files and a recognition capability that fails on none of them, the run on
  a file system where \<^verbatim>\<open>out/a/a.txt\<close> is a directory ends in the uncaught exception of
  the text write (line 99, outside any \<^verbatim>\<open>try\<close>): the process exits with status 1, not
  0, and the recognition capability was called on the first file only, not on all
  three. The defect is the one of C2.
\<close>

theorem write_error_exits_1_without_fail_fast:
  "\<not> fail_on_error demo_args \<and>
   set (parse_formats (formats demo_args)) \<subseteq> set supported \<and>
   find_audio_files (input demo_args) (at_input ok_env) audio_exts
     = [''in/a.mp3'', ''in/b.wav'', ''in/c.MP3''] \<and>
   map (\<lambda>f. isl (transcribe_whisper ok_env f (model demo_args) (device demo_args)
                   (language demo_args)))
     [''in/a.mp3'', ''in/b.wav'', ''in/c.MP3''] = [False, False, False] \<and>
   fst (main ok_env demo_args blocked) = Uncaught (IsADirectoryError ''out/a/a.txt'') \<and>
   exit_status (fst (main ok_env demo_args blocked)) = 1 \<and>
   attempted (trace (snd (main ok_env demo_args blocked))) = [''in/a.mp3'']"
  by code_simp

text \<open>
  C2. A write error of the text format is not caught. With \<^verbatim>\<open>out/a/a.txt\<close> a directory,
  the run ends in an uncaught exception at the first file: its JSON, SRT and VTT
  outputs are never attempted and the two files after it are never processed. The
  caption formats do what the claim says: on a file system without the obstacle, the
  failure of the SRT writer is reported on the error stream, the VTT file is still
  written and the run goes on to the next files.
\<close>

theorem text_write_error_ends_run:
  "fst (main demo_env demo_args blocked) = Uncaught (IsADirectoryError ''out/a/a.txt'') \<and>
   trace (snd (main demo_env demo_args blocked))
     = [Scan ''in'', MakeDirs ''out'', MakeDirs ''out/a'', Stdout ''Transcribing: in/a.mp3'',
        Transcribe ''in/a.mp3'', SaveText ''out/a/a.txt'' ''hello in/a.mp3''] \<and>
   fst (main demo_env demo_args fresh) = Exit 0 \<and>
   stderr_lines (trace (snd (main demo_env demo_args fresh)))
     = [''Failed SRT writing for in/a.mp3: boom'',
        ''Failed transcription for in/b.wav: corrupt'',
        ''Failed SRT writing for in/c.MP3: boom''] \<and>
   filter fs_call (trace (snd (main demo_env demo_args fresh)))
     = [MakeDirs ''out'',
        MakeDirs ''out/a'', SaveText ''out/a/a.txt'' ''hello in/a.mp3'',
        SaveText ''out/a/a.json'' ''{}'', WriteTimecoded ''in/a.mp3'' ''out/a'' ''srt'',
        WriteTimecoded ''in/a.mp3'' ''out/a'' ''vtt'',
        MakeDirs ''out/b'',
        MakeDirs ''out/c'', SaveText ''out/c/c.txt'' ''hello in/c.MP3'',
        SaveText ''out/c/c.json'' ''{}'', WriteTimecoded ''in/c.MP3'' ''out/c'' ''srt'',
        WriteTimecoded ''in/c.MP3'' ''out/c'' ''vtt'']"
  by code_simp

text \<open>
  C3. When a requested format is outside the supported set, the process exits with
  status 2 and the only thing it has done is one line on the error stream: no scan of
  the input path, no directory, no transcription. The result is the same for every
  environment, so for any number of audio files under the input path.
\<close>

theorem invalid_format_exits_2:
  assumes "f \<in> set (parse_formats (formats a))" and "f \<notin> set supported"
  shows "\<exists>bad. bad \<in> set (parse_formats (formats a)) \<and> bad \<notin> set supported \<and>
           (\<forall>w. main w a s = (Exit 2, s\<lparr>trace := trace s @ [Stderr (unsupported_message bad)]\<rparr>))"
proof -
  from assms have "\<not> set (parse_formats (formats a)) \<subseteq> set supported" by auto
  then obtain bad where bad: "find (\<lambda>fmt. fmt \<notin> set supported) (parse_formats (formats a)) = Some bad"
    using find_unsupported by blast
  then have "bad \<in> set (parse_formats (formats a))" "bad \<notin> set supported"
    by (auto simp: find_Some_iff)
  with main_rejects [OF bad] show ?thesis
    by (auto simp: eprint_def emit_def)
qed

theorem invalid_format_exits_2_witness:
  "''mp3'' \<in> set (parse_formats (formats (demo_args\<lparr>formats := ''txt, MP3''\<rparr>))) \<and>
   ''mp3'' \<notin> set supported \<and>
   fst (main demo_env (demo_args\<lparr>formats := ''txt, MP3''\<rparr>) fresh) = Exit 2 \<and>
   attempted (trace (snd (main demo_env (demo_args\<lparr>formats := ''txt, MP3''\<rparr>) fresh))) = []"
proof -
  have a: "''mp3'' \<in> set (parse_formats (formats (demo_args\<lparr>formats := ''txt, MP3''\<rparr>)))"
    by code_simp
  have b: "''mp3'' \<notin> set supported"
    by code_simp
  from invalid_format_exits_2 [OF a b, of fresh] obtain bad where
    "\<forall>w. main w (demo_args\<lparr>formats := ''txt, MP3''\<rparr>) fresh
           = (Exit 2, fresh\<lparr>trace := trace fresh @ [Stderr (unsupported_message bad)]\<rparr>)"
    by blast
  then have "main demo_env (demo_args\<lparr>formats := ''txt, MP3''\<rparr>) fresh
           = (Exit 2, fresh\<lparr>trace := trace fresh @ [Stderr (unsupported_message bad)]\<rparr>)"
    by (rule spec)
  then have "fst (main demo_env (demo_args\<lparr>formats := ''txt, MP3''\<rparr>) fresh) = Exit 2"
    and "attempted (trace (snd (main demo_env (demo_args\<lparr>formats := ''txt, MP3''\<rparr>) fresh))) = []"
    by (simp_all add: fresh_def)
  with a b show ?thesis
    by (intro conjI)
qed

text \<open>
  C4. For a root that is a directory, \<open>find_audio_files\<close> returns, in sorted order,
  exactly the paths of the files under it, at any depth, whose lower-cased name ends
  with a member of the allow-list, and each of them once when the names in every
  directory are names and differ. For a root that is a file it returns that one path
  when the extension test of the source holds (the lower-cased path ends with a member
  of the allow-list) and the empty list otherwise.
\<close>

theorem find_audio_files_exact:
  "sorted (find_audio_files root (Some (Dir es)) E) \<and>
   set (find_audio_files root (Some (Dir es)) E)
     = {p. \<exists>n. file_under root es p n \<and> (\<exists>e \<in> set E. suffix e (str_lower n))} \<and>
   (proper_entries es \<longrightarrow> distinct (find_audio_files root (Some (Dir es)) E)) \<and>
   find_audio_files root (Some File) E
     = (if \<exists>e \<in> set E. suffix e (str_lower root) then [root] else [])"
proof (intro conjI)
  show "proper_entries es \<longrightarrow> distinct (find_audio_files root (Some (Dir es)) E)"
    by (simp add: distinct_find_audio_files)
  show "sorted (find_audio_files root (Some (Dir es)) E)"
    by (simp add: find_audio_files_def)
  have "set (find_audio_files root (Some (Dir es)) E)
          = {p. \<exists>n. file_under root es p n \<and> endswith_any (str_lower n) E}"
    unfolding find_audio_files_def
    by (simp only: option.case node.case set_sort set_found)
  then show "set (find_audio_files root (Some (Dir es)) E)
     = {p. \<exists>n. file_under root es p n \<and> (\<exists>e \<in> set E. suffix e (str_lower n))}"
    by (simp only: endswith_any_iff)
  show "find_audio_files root (Some File) E
     = (if \<exists>e \<in> set E. suffix e (str_lower root) then [root] else [])"
    by (simp add: find_audio_files_def endswith_any_iff)
qed

theorem find_audio_files_exact_witness:
  "proper_entries tree1 \<and>
   find_audio_files ''r'' (Some (Dir tree1)) [''.mp3''] = [''r/d/b.MP3'', ''r/z.mp3''] \<and>
   {p. \<exists>n. file_under ''r'' tree1 p n \<and> (\<exists>e \<in> set [''.mp3'']. suffix e (str_lower n))}
     = {''r/d/b.MP3'', ''r/z.mp3''} \<and>
   find_audio_files ''r/z.MP3'' (Some File) [''.mp3''] = [''r/z.MP3''] \<and>
   find_audio_files ''r/c'' (Some File) [''.mp3''] = []"
proof -
  have a: "find_audio_files ''r'' (Some (Dir tree1)) [''.mp3''] = [''r/d/b.MP3'', ''r/z.mp3'']"
    by code_simp
  have b: "find_audio_files ''r/z.MP3'' (Some File) [''.mp3''] = [''r/z.MP3'']"
    by code_simp
  have c: "find_audio_files ''r/c'' (Some File) [''.mp3''] = []"
    by code_simp
  have d: "proper_entries tree1"
    by code_simp
  from find_audio_files_exact [of "''r''" tree1 "[''.mp3'']"] a b c d show ?thesis
    by simp
qed

text \<open>
  C5. With fail-fast mode on, let \<open>f\<close> be the first discovered file whose transcription
  fails. The process ends with status 1, and the files the recognition capability was
  called on are a prefix of the files up to \<open>f\<close>: no file after \<open>f\<close> is attempted. Unless
  an uncaught exception of the file system ends the run earlier, they are exactly the
  files up to and including \<open>f\<close>, and \<open>main\<close> returns 1.
\<close>

theorem fail_fast_stops_at_first_failure:
  assumes "set (parse_formats (formats a)) \<subseteq> set supported"
    and "fail_on_error a"
    and "find_audio_files (input a) (at_input w) audio_exts = pre @ f # post"
    and "\<forall>g \<in> set pre. \<exists>r. transcribe_whisper w g (model a) (device a) (language a) = Inr r"
    and "transcribe_whisper w f (model a) (device a) (language a) = Inl exc"
    and "main w a s = (out, s')"
  shows "exit_status out = 1 \<and>
         (\<exists>xs. attempted (trace s') = attempted (trace s) @ xs \<and> prefix xs (pre @ [f])) \<and>
         ((\<forall>e. out \<noteq> Uncaught e) \<longrightarrow>
            out = Exit 1 \<and> attempted (trace s') = attempted (trace s) @ pre @ [f])"
proof -
  from assms(3) have ne: "find_audio_files (input a) (at_input w) audio_exts \<noteq> []"
    by simp
  from assms(1) ne assms(6) show ?thesis
  proof (cases rule: main_batch)
    case (root_raised e)
    then show ?thesis
      by (simp add: ensure_dir_trace)
  next
    case (batch s1)
    have tr: "attempted (trace s1) = attempted (trace s)"
      using ensure_dir_attempted [OF batch(1)] by simp
    from batch(2) assms(3)
    have "process_files w a (parse_formats (formats a)) (pre @ f # post) [] s1 = (out, s')"
      by simp
    from process_files_fail_fast [OF assms(2) assms(4) assms(5) this] tr
    show ?thesis by simp
  qed
qed

theorem fail_fast_stops_at_first_failure_witness:
  "set (parse_formats (formats (demo_args\<lparr>fail_on_error := True\<rparr>))) \<subseteq> set supported \<and>
   fail_on_error (demo_args\<lparr>fail_on_error := True\<rparr>) \<and>
   find_audio_files (input (demo_args\<lparr>fail_on_error := True\<rparr>)) (at_input demo_env) audio_exts
     = [''in/a.mp3''] @ ''in/b.wav'' # [''in/c.MP3''] \<and>
   fst (main demo_env (demo_args\<lparr>fail_on_error := True\<rparr>) fresh) = Exit 1 \<and>
   attempted (trace (snd (main demo_env (demo_args\<lparr>fail_on_error := True\<rparr>) fresh)))
     = [''in/a.mp3'', ''in/b.wav'']"
proof -
  let ?a = "demo_args\<lparr>fail_on_error := True\<rparr>"
  have a: "set (parse_formats (formats ?a)) \<subseteq> set supported"
    by code_simp
  have b: "fail_on_error ?a"
    by simp
  have c: "find_audio_files (input ?a) (at_input demo_env) audio_exts
             = [''in/a.mp3''] @ ''in/b.wav'' # [''in/c.MP3'']"
    by code_simp
  have d: "\<forall>g \<in> set [''in/a.mp3''].
             \<exists>r. transcribe_whisper demo_env g (model ?a) (device ?a) (language ?a) = Inr r"
    by (simp add: transcribe_whisper_def demo_env_def)
  have e: "transcribe_whisper demo_env ''in/b.wav'' (model ?a) (device ?a) (language ?a)
             = Inl (Exception ''corrupt'')"
    by (simp add: transcribe_whisper_def demo_env_def)
  have f: "fst (main demo_env ?a fresh) = Exit 1"
    by code_simp
  have g: "trace fresh = []"
    by (simp add: fresh_def)
  have "main demo_env ?a fresh = (fst (main demo_env ?a fresh), snd (main demo_env ?a fresh))"
    by simp
  from fail_fast_stops_at_first_failure [OF a b c d e this] f g
  have "attempted (trace (snd (main demo_env ?a fresh))) = [''in/a.mp3'', ''in/b.wav'']"
    by simp
  with a b c f show ?thesis
    by (intro conjI)
qed

text \<open>
  C6. When the formats are valid and the File Locator finds no audio file, the process
  exits with status 0 right after the scan and the diagnostic; the recognition
  capability is not called.
\<close>

theorem no_files_exits_0:
  assumes "set (parse_formats (formats a)) \<subseteq> set supported"
    and "find_audio_files (input a) (at_input w) audio_exts = []"
  shows "fst (main w a s) = Exit 0 \<and>
         trace (snd (main w a s))
           = trace s @ [Scan (input a), Stderr ''No audio files found to transcribe.''] \<and>
         attempted (trace (snd (main w a s))) = attempted (trace s)"
  by (simp add: main_no_files [OF assms])

theorem no_files_exits_0_witness:
  "set (parse_formats (formats demo_args)) \<subseteq> set supported \<and>
   find_audio_files (input demo_args) (at_input no_audio_env) audio_exts = [] \<and>
   fst (main no_audio_env demo_args fresh) = Exit 0 \<and>
   attempted (trace (snd (main no_audio_env demo_args fresh))) = []"
proof -
  have a: "set (parse_formats (formats demo_args)) \<subseteq> set supported"
    by code_simp
  have b: "find_audio_files (input demo_args) (at_input no_audio_env) audio_exts = []"
    by code_simp
  from no_files_exits_0 [OF a b, of fresh] a b show ?thesis
    by (simp add: fresh_def)
qed



text \<open>
  C8. The format list is the entries between commas, stripped and lower-cased, the
  empty ones dropped; the run is rejected with status 2 exactly when some entry that is
  not empty after stripping lower-cases to a name outside txt, json, srt, vtt.
\<close>

theorem format_list_parsing:
  "parse_formats s
     = map (\<lambda>e. str_lower (str_strip e)) (filter (\<lambda>e. str_strip e \<noteq> []) (str_split s CHR '','')) \<and>
   (fst (main w a st) = Exit 2) =
     (\<exists>e \<in> set (str_split (formats a) CHR '','').
        str_strip e \<noteq> [] \<and> str_lower (str_strip e) \<notin> {''txt'', ''json'', ''srt'', ''vtt''})"
proof
  show "parse_formats s
     = map (\<lambda>e. str_lower (str_strip e)) (filter (\<lambda>e. str_strip e \<noteq> []) (str_split s CHR '',''))"
    unfolding parse_formats_def by (rule concat_map_if)
next
  have set_parse: "set (parse_formats (formats a))
      = {str_lower (str_strip e) |e. e \<in> set (str_split (formats a) CHR '','') \<and> str_strip e \<noteq> []}"
    unfolding parse_formats_def by auto
  show "(fst (main w a st) = Exit 2) =
     (\<exists>e \<in> set (str_split (formats a) CHR '','').
        str_strip e \<noteq> [] \<and> str_lower (str_strip e) \<notin> {''txt'', ''json'', ''srt'', ''vtt''})"
  proof (cases "set (parse_formats (formats a)) \<subseteq> set supported")
    case True
    have "fst (main w a st) \<noteq> Exit 2"
    proof (cases "find_audio_files (input a) (at_input w) audio_exts = []")
      case True
      with main_no_files [OF \<open>set (parse_formats (formats a)) \<subseteq> set supported\<close> True]
      show ?thesis by simp
    next
      case False
      obtain out s' where m: "main w a st = (out, s')" by (cases "main w a st")
      from True False m have "out \<noteq> Exit 2"
        by (cases rule: main_batch) (auto dest: process_files_status)
      with m show ?thesis by simp
    qed
    with True show ?thesis
      unfolding set_parse by (auto simp: supported_def)
  next
    case False
    then obtain bad where "find (\<lambda>fmt. fmt \<notin> set supported) (parse_formats (formats a)) = Some bad"
      using find_unsupported by blast
    from main_rejects [OF this] have "fst (main w a st) = Exit 2" by simp
    with False show ?thesis
      unfolding set_parse by (auto simp: supported_def)
  qed
qed

theorem format_list_parsing_witness:
  "parse_formats '' TXT,Json,,'' = [''txt'', ''json''] \<and>
   fst (main demo_env (demo_args\<lparr>formats := '' TXT,Json,,''\<rparr>) fresh) \<noteq> Exit 2 \<and>
   fst (main demo_env (demo_args\<lparr>formats := ''txt, ogg''\<rparr>) fresh) = Exit 2"
proof -
  have a: "parse_formats '' TXT,Json,,'' = [''txt'', ''json'']"
    by code_simp
  have b: "\<not> (\<exists>e \<in> set (str_split (formats (demo_args\<lparr>formats := '' TXT,Json,,''\<rparr>)) CHR '','').
        str_strip e \<noteq> [] \<and> str_lower (str_strip e) \<notin> {''txt'', ''json'', ''srt'', ''vtt''})"
    by code_simp
  have c: "\<exists>e \<in> set (str_split (formats (demo_args\<lparr>formats := ''txt, ogg''\<rparr>)) CHR '','').
        str_strip e \<noteq> [] \<and> str_lower (str_strip e) \<notin> {''txt'', ''json'', ''srt'', ''vtt''}"
    by code_simp
  from format_list_parsing [of "'' TXT,Json,,''" demo_env "demo_args\<lparr>formats := '' TXT,Json,,''\<rparr>" fresh] b
  have d: "fst (main demo_env (demo_args\<lparr>formats := '' TXT,Json,,''\<rparr>) fresh) \<noteq> Exit 2"
    by blast
  from format_list_parsing [of "'' TXT,Json,,''" demo_env "demo_args\<lparr>formats := ''txt, ogg''\<rparr>" fresh] c
  have "fst (main demo_env (demo_args\<lparr>formats := ''txt, ogg''\<rparr>) fresh) = Exit 2"
    by blast
  with a d show ?thesis
    by (intro conjI)
qed

text \<open>
  C9. In every run, each call of the recognition capability on a file comes after the
  call that creates the output directory of that file, and at the end of the run the
  output directory of every file the capability was called on is a directory, whether
  its transcription failed or not. Creating a directory that already exists does not
  fail and changes nothing on the file system, so creating it twice is creating it once.
  The path of every output directory starts with the output root.
\<close>

theorem output_dir_before_transcription:
  assumes "main w a s = (out, s')"
  shows "(\<forall>pre f post. trace s' = trace s @ pre @ Transcribe f # post \<longrightarrow>
            MakeDirs (out_folder_of a f) \<in> set pre) \<and>
         (\<forall>f \<in> set (attempted (drop (length (trace s)) (trace s'))).
            fsys s' (out_folder_of a f) = Some IsDir) \<and>
         (\<forall>d st. fsys st d = Some IsDir \<longrightarrow> ensure_dir d st = (None, emit (MakeDirs d) st)) \<and>
         (\<forall>d st st'. ensure_dir d st = (None, st') \<longrightarrow>
            fsys st' d = Some IsDir \<and> ensure_dir d st' = (None, emit (MakeDirs d) st')) \<and>
         (\<forall>f. prefix (out_dir a) (out_folder_of a f))"
proof (intro conjI allI impI)
  show "prefix (out_dir a) (out_folder_of a f)" for f
    by (rule out_folder_under_root)
next
  from main_dirs [OF assms] obtain evs where
    t: "trace s' = trace s @ evs" and df: "dirs_first (out_folder_of a) {} evs"
    and at: "\<forall>f \<in> set (attempted evs). fsys s' (out_folder_of a f) = Some IsDir"
    by blast
  from t at show "\<forall>f \<in> set (attempted (drop (length (trace s)) (trace s'))).
            fsys s' (out_folder_of a f) = Some IsDir"
    by simp
  fix pre f post
  assume "trace s' = trace s @ pre @ Transcribe f # post"
  with t have "evs = pre @ Transcribe f # post" by simp
  from dirs_first_before [OF df this] show "MakeDirs (out_folder_of a f) \<in> set pre"
    by simp
next
  fix d and st :: state
  assume "fsys st d = Some IsDir"
  then show "ensure_dir d st = (None, emit (MakeDirs d) st)"
    by (rule ensure_dir_exists)
next
  fix d and st st' :: state
  assume e: "ensure_dir d st = (None, st')"
  then show "fsys st' d = Some IsDir"
    by (rule ensure_dir_made)
  then show "ensure_dir d st' = (None, emit (MakeDirs d) st')"
    by (rule ensure_dir_exists)
qed

theorem output_dir_before_transcription_witness:
  "attempted (trace (snd (main demo_env demo_args fresh)))
     = [''in/a.mp3'', ''in/b.wav'', ''in/c.MP3''] \<and>
   transcribe_whisper demo_env ''in/b.wav'' (model demo_args) (device demo_args)
     (language demo_args) = Inl (Exception ''corrupt'') \<and>
   out_folder_of demo_args ''in/b.wav'' = ''out/b'' \<and>
   fsys (snd (main demo_env demo_args fresh)) ''out/b'' = Some IsDir \<and>
   ensure_dir ''out/b'' (snd (main demo_env demo_args fresh))
     = (None, emit (MakeDirs ''out/b'') (snd (main demo_env demo_args fresh)))"
proof -
  define run where "run = main demo_env demo_args fresh"
  have a: "attempted (trace (snd run)) = [''in/a.mp3'', ''in/b.wav'', ''in/c.MP3'']"
    unfolding run_def by code_simp
  have b: "transcribe_whisper demo_env ''in/b.wav'' (model demo_args) (device demo_args)
     (language demo_args) = Inl (Exception ''corrupt'')"
    by (simp add: transcribe_whisper_def demo_env_def)
  have c: "out_folder_of demo_args ''in/b.wav'' = ''out/b''"
    by code_simp
  have t: "trace fresh = []"
    by (simp add: fresh_def)
  have r: "main demo_env demo_args fresh = (fst run, snd run)"
    unfolding run_def by (rule prod.collapse [symmetric])
  note main_fact = output_dir_before_transcription [OF r]
  from main_fact a t have "fsys (snd run) (out_folder_of demo_args ''in/b.wav'') = Some IsDir"
    by simp
  with c have d: "fsys (snd run) ''out/b'' = Some IsDir"
    by simp
  from main_fact d have e: "ensure_dir ''out/b'' (snd run) = (None, emit (MakeDirs ''out/b'') (snd run))"
    by blast
  from a b c d e show ?thesis
    unfolding run_def by (intro conjI)
qed

text \<open>
  C10. When the File Locator finds no audio file, the file system is left as it was and
  no call that could change it is made: the output root is not created.
\<close>

theorem no_files_no_writes:
  assumes "find_audio_files (input a) (at_input w) audio_exts = []"
  shows "fsys (snd (main w a s)) = fsys s \<and>
         filter fs_call (trace (snd (main w a s))) = filter fs_call (trace s)"
proof (cases "set (parse_formats (formats a)) \<subseteq> set supported")
  case True
  from main_no_files [OF True assms] show ?thesis by simp
next
  case False
  then obtain bad where "find (\<lambda>fmt. fmt \<notin> set supported) (parse_formats (formats a)) = Some bad"
    using find_unsupported by blast
  from main_rejects [OF this] show ?thesis by simp
qed

theorem no_files_no_writes_witness:
  "find_audio_files (input demo_args) (at_input no_audio_env) audio_exts = [] \<and>
   fsys (snd (main no_audio_env demo_args fresh)) ''out'' = None \<and>
   filter fs_call (trace (snd (main no_audio_env demo_args fresh))) = []"
proof -
  have a: "find_audio_files (input demo_args) (at_input no_audio_env) audio_exts = []"
    by code_simp
  from no_files_no_writes [OF a, of fresh] a show ?thesis
    by (simp add: fresh_def)
qed

end
